theory Spec2Isabelle
  imports Complex_Main "HOL-Library.Word"
begin

unbundle bit_operations_syntax

chapter \<open>The evolution simulator: genes, genomes, brains and the generation cycle\<close>

text \<open>
  A shallow embedding of \<^verbatim>\<open>gene.py\<close>, \<^verbatim>\<open>genome.py\<close>, \<^verbatim>\<open>brain.py\<close>, \<^verbatim>\<open>grid.py\<close>,
  \<^verbatim>\<open>individual.py\<close> and \<^verbatim>\<open>simulation.py\<close>.

  Conventions of the embedding.
  \<^item> Python's unbounded integers are \<^typ>\<open>int\<close>; \<^verbatim>\<open>&\<close>, \<^verbatim>\<open>|\<close>, \<^verbatim>\<open>^\<close>, \<^verbatim>\<open><<\<close>, \<^verbatim>\<open>>>\<close> are
    the bit operations of \<^typ>\<open>int\<close> (two's complement on negative numbers, as in Python);
    \<^verbatim>\<open>//\<close> and \<^verbatim>\<open>%\<close> are \<open>div\<close> and \<open>mod\<close> (both round towards minus infinity).
  \<^item> Python's floats are values of \<^typ>\<open>real\<close>. In \<^verbatim>\<open>gene.py\<close>, whose packed word depends on
    the last bit of a product, every float operation of \<open>to_int\<close> and \<open>from_int\<close> is followed
    by the rounding of binary64 (to nearest, ties to even). Elsewhere (random weights, the
    sums and \<open>tanh\<close> of the brain, the selection circle) floats are idealised: the operation
    is the one on the reals. \<^verbatim>\<open>int(v)\<close> on a float truncates towards zero.
  \<^item> Gene objects are mutable and shared by reference, so they live in an explicit store; a
    genome is the list of the addresses of its genes.
  \<^item> The pseudo-random generator is an explicit stream of raw draws that every operation
    consumes and hands on.
  \<^item> Exceptions are values of a sum type; the one loop that may run forever returns
    \<^typ>\<open>'a option\<close>.
\<close>

section \<open>Definitions\<close>

subsection \<open>Gene (\<^verbatim>\<open>gene.py\<close>)\<close>

text \<open>
  \<^verbatim>\<open>source_type\<close>: 0 = neuron, 1 = sensor; \<^verbatim>\<open>sink_type\<close>: 0 = neuron, 1 = action.
\<close>

record gene =
  source_type :: int
  source_id :: int
  sink_type :: int
  sink_id :: int
  weight :: real

subsubsection \<open>Binary64 arithmetic\<close>

text \<open>
  A Python float is an IEEE 754 binary64 value. The finite ones are the reals \<open>m * 2 ^ j\<close>
  with \<open>\<bar>m\<bar> < 2 ^ 53\<close> and \<open>j \<ge> -1074\<close>. Every arithmetic operation returns the
  exact result rounded to the nearest such value, ties to the even significand:
  \<open>bexp v\<close> is the exponent of the binade of \<open>v\<close> (not below \<open>-1022\<close>, where the subnormal
  numbers begin), \<open>ulp v\<close> the distance between neighbouring binary64 values there, and
  \<open>round64 v\<close> the nearest multiple of \<open>ulp v\<close>. Overflow to infinity is not modelled:
  \<^verbatim>\<open>gene.py\<close> computes on magnitudes of at most \<open>32768\<close> for weights in \<open>[-4, 4]\<close>.
\<close>

definition bexp :: "real \<Rightarrow> int" where
  "bexp v = max \<lfloor>log 2 \<bar>v\<bar>\<rfloor> (- 1022)"

definition ulp :: "real \<Rightarrow> real" where
  "ulp v = 2 powr (of_int (bexp v) - 52)"

definition round_half_even :: "real \<Rightarrow> int" where
  "round_half_even v =
    (let f = \<lfloor>v\<rfloor>
     in if v - of_int f < 1 / 2 then f
        else if v - of_int f > 1 / 2 then f + 1
        else if even f then f else f + 1)"

definition round64 :: "real \<Rightarrow> real" where
  "round64 v = (if v = 0 then 0 else of_int (round_half_even (v / ulp v)) * ulp v)"

definition is_float :: "real \<Rightarrow> bool" where
  "is_float v \<longleftrightarrow> (\<exists>m j. v = of_int m * 2 powr of_int j \<and> \<bar>m\<bar> < 2 ^ 53 \<and> - 1074 \<le> j)"

text \<open>Float multiplication \<^verbatim>\<open>a * b\<close> and division \<^verbatim>\<open>a / b\<close> (for \<open>b \<noteq> 0\<close>).\<close>

definition fmul :: "real \<Rightarrow> real \<Rightarrow> real" where
  "fmul a b = round64 (a * b)"

definition fdiv :: "real \<Rightarrow> real \<Rightarrow> real" where
  "fdiv a b = round64 (a / b)"

subsubsection \<open>Packing and unpacking\<close>

text \<open>\<^verbatim>\<open>int(v)\<close> for a float \<open>v\<close>: truncation towards zero.\<close>

definition py_int :: "real \<Rightarrow> int" where
  "py_int v = (if 0 \<le> v then \<lfloor>v\<rfloor> else \<lceil>v\<rceil>)"

text \<open>
  \<^verbatim>\<open>Gene.to_int\<close>: pack into a 32-bit integer. \<^verbatim>\<open>self.weight / 4.0 * 32767\<close> is a float
  division followed by a float multiplication (the integer \<open>32767\<close> converts exactly).
\<close>

definition to_int :: "gene \<Rightarrow> int" where
  "to_int g =
    (let w_int = max (- 32768) (min 32767 (py_int (fmul (fdiv (weight g) 4.0) 32767)));
         w_uint = w_int AND 0xFFFF;
         packed = (((push_bit 31 (source_type g) OR
                  push_bit 24 (source_id g AND 0x7F)) OR
                  push_bit 23 (sink_type g)) OR
                  push_bit 16 (sink_id g AND 0x7F)) OR
                  w_uint
     in packed)"

text \<open>
  \<^verbatim>\<open>Gene.from_int\<close>: decode from a 32-bit integer. \<^verbatim>\<open>(w_int / 32767.0) * 4.0\<close> is a float
  division (of the exactly converted integer) followed by a float multiplication.
\<close>

definition from_int :: "int \<Rightarrow> gene" where
  "from_int packed =
    (let source_type' = drop_bit 31 packed AND 0x1;
         source_id' = drop_bit 24 packed AND 0x7F;
         sink_type' = drop_bit 23 packed AND 0x1;
         sink_id' = drop_bit 16 packed AND 0x7F;
         w_uint = packed AND 0xFFFF;
         w_int = (if w_uint < 32768 then w_uint else w_uint - 65536);
         weight' = fmul (fdiv (real_of_int w_int) 32767.0) 4.0
     in \<lparr>source_type = source_type', source_id = source_id',
         sink_type = sink_type', sink_id = sink_id', weight = weight'\<rparr>)"

text \<open>
  The genes the claims call valid: kinds in \<open>{0, 1}\<close>, identifiers in \<open>[0, 127]\<close>, weight in
  \<open>[-4, 4]\<close>. That the weight is a binary64 value is said separately, by \<open>is_float\<close>, where
  it matters.
\<close>

definition valid_gene :: "gene \<Rightarrow> bool" where
  "valid_gene g \<longleftrightarrow>
     (source_type g = 0 \<or> source_type g = 1) \<and> (sink_type g = 0 \<or> sink_type g = 1) \<and>
     0 \<le> source_id g \<and> source_id g \<le> 127 \<and> 0 \<le> sink_id g \<and> sink_id g \<le> 127 \<and>
     - 4 \<le> weight g \<and> weight g \<le> 4"

text \<open>
  Names for parts of the two functions above, used in the proofs: the clamped weight code of
  \<open>to_int\<close>, the sign extension of \<open>from_int\<close>, and the five-field word of \<open>to_int\<close>.
\<close>

definition weight_code :: "real \<Rightarrow> int" where
  "weight_code v = max (- 32768) (min 32767 (py_int (fmul (fdiv v 4.0) 32767)))"

definition sign_extend :: "int \<Rightarrow> int" where
  "sign_extend u = (if u < 32768 then u else u - 65536)"

definition pack5 :: "int \<Rightarrow> int \<Rightarrow> int \<Rightarrow> int \<Rightarrow> int \<Rightarrow> int" where
  "pack5 a b c d w =
     (((push_bit 31 a OR push_bit 24 (take_bit 7 b)) OR push_bit 23 c) OR
        push_bit 16 (take_bit 7 d)) OR take_bit 16 w"

text \<open>
  The weight code as the specification words it, with rounding to the nearest integer in
  place of the truncation of \<open>to_int\<close> (on the same float product); it is only compared with
  the code.
\<close>

definition weight_code_spec :: "real \<Rightarrow> int" where
  "weight_code_spec v = max (- 32768) (min 32767 (round (fmul (fdiv v 4.0) 32767)))"

subsection \<open>The pseudo-random generator (Python's \<^verbatim>\<open>random\<close> module)\<close>

text \<open>
  The generator is global state of the Python process and not part of the repository. It is
  modelled as the stream of its raw draws still to come; each library call consumes the first
  draw and returns the rest of the stream. The calls are modelled from their documentation:
  \<^verbatim>\<open>random()\<close> returns a float in \<open>[0, 1)\<close> (a multiple of \<open>2\<^sup>-\<^sup>5\<^sup>3\<close>), \<^verbatim>\<open>randint(a, b)\<close> an
  integer \<open>N\<close> with \<open>a \<le> N \<le> b\<close>, \<^verbatim>\<open>uniform(a, b)\<close> is \<open>a + (b - a) * random()\<close>,
  \<^verbatim>\<open>choice(xs)\<close> an element of \<open>xs\<close> and \<^verbatim>\<open>sample(xs, 2)\<close> two elements at distinct positions.
  Every value in the documented range is produced by some raw draw, and nothing outside it.
  \<^verbatim>\<open>randint(a, b)\<close> with \<open>b < a\<close> raises \<^verbatim>\<open>ValueError\<close>; the callers below that can reach it
  check for it before the call.
\<close>

type_synonym rng = "nat \<Rightarrow> nat"

definition rng_rest :: "rng \<Rightarrow> rng" where
  "rng_rest r = (\<lambda>i. r (Suc i))"

definition random_random :: "rng \<Rightarrow> real \<times> rng" where
  "random_random r = (real (r 0 mod 2 ^ 53) / 2 ^ 53, rng_rest r)"

definition random_randint :: "int \<Rightarrow> int \<Rightarrow> rng \<Rightarrow> int \<times> rng" where
  "random_randint a b r = (a + int (r 0) mod (b - a + 1), rng_rest r)"

definition random_uniform :: "real \<Rightarrow> real \<Rightarrow> rng \<Rightarrow> real \<times> rng" where
  "random_uniform a b r = (let (u, r') = random_random r in (a + (b - a) * u, r'))"

definition random_choice :: "'a list \<Rightarrow> rng \<Rightarrow> 'a \<times> rng" where
  "random_choice xs r = (xs ! (r 0 mod length xs), rng_rest r)"

text \<open>
  \<^verbatim>\<open>random.sample(xs, 2)\<close> for a list of at least two elements: the positions of the two
  elements. The second position is drawn among the positions other than the first.
\<close>

definition random_sample2 :: "nat \<Rightarrow> rng \<Rightarrow> (nat \<times> nat) \<times> rng" where
  "random_sample2 n r =
    (let i = r 0 mod n;
         k = r 1 mod (n - 1);
         j = (if k < i then k else Suc k)
     in ((i, j), rng_rest (rng_rest r)))"

text \<open>A generator whose first draws are listed, all later ones being 0 (for concrete runs).\<close>

definition draws :: "nat list \<Rightarrow> rng" where
  "draws xs = (\<lambda>i. if i < length xs then xs ! i else 0)"

subsection \<open>The store of gene objects\<close>

text \<open>
  A \<^verbatim>\<open>Gene\<close> object is mutable (\<^verbatim>\<open>Gene.mutate\<close> overwrites its fields) and a genome holds
  references to its genes. The store is the list of all gene objects created so far; the
  address of an object is its position. Creating an object appends to the store.
\<close>

type_synonym addr = nat
type_synonym heap = "gene list"

definition new_gene :: "heap \<Rightarrow> gene \<Rightarrow> heap \<times> addr" where
  "new_gene h g = (h @ [g], length h)"

text \<open>\<^verbatim>\<open>Gene.random\<close>: the field values of a random gene (the caller creates the object).\<close>

definition Gene_random :: "rng \<Rightarrow> gene \<times> rng" where
  "Gene_random r0 =
    (let (a, r1) = random_randint 0 1 r0;
         (b, r2) = random_randint 0 127 r1;
         (c, r3) = random_randint 0 1 r2;
         (d, r4) = random_randint 0 127 r3;
         (w, r5) = random_uniform (- 4.0) 4.0 r4
     in (\<lparr>source_type = a, source_id = b, sink_type = c, sink_id = d, weight = w\<rparr>, r5))"

text \<open>\<^verbatim>\<open>Gene.copy\<close>: a new object with the same field values.\<close>

definition Gene_copy :: "heap \<Rightarrow> addr \<Rightarrow> heap \<times> addr" where
  "Gene_copy h a = new_gene h (h ! a)"

text \<open>
  \<^verbatim>\<open>Gene.mutate\<close>: flip a single random bit of the packed word and overwrite the fields of
  the object in place.
\<close>

definition Gene_mutate :: "heap \<Rightarrow> addr \<Rightarrow> rng \<Rightarrow> heap \<times> rng" where
  "Gene_mutate h a r0 =
    (let packed = to_int (h ! a);
         (bit, r1) = random_randint 0 31 r0;
         packed' = packed XOR push_bit (nat bit) 1;
         mutated = from_int packed'
     in (h[a := mutated], r1))"

subsection \<open>Genome (\<^verbatim>\<open>genome.py\<close>)\<close>

text \<open>
  A genome is the list of the addresses of its genes. Every \<^verbatim>\<open>Genome\<close> of the program is
  built around a list created for it (a comprehension, a slice or a literal), so no two
  genomes share their list and the list is modelled by value.
\<close>

type_synonym genome = "addr list"

text \<open>The genes of a genome, read from the store.\<close>

definition genes_of :: "heap \<Rightarrow> genome \<Rightarrow> gene list" where
  "genes_of h gs = map (\<lambda>a. h ! a) gs"

text \<open>All references of a genome point into the store.\<close>

definition valid_refs :: "heap \<Rightarrow> genome \<Rightarrow> bool" where
  "valid_refs h gs = list_all (\<lambda>a. a < length h) gs"

text \<open>\<^verbatim>\<open>Genome.random\<close>: the loop \<^verbatim>\<open>for i in range(num_genes): genes.append(Gene.random())\<close>.\<close>

fun Genome_random_loop :: "nat \<Rightarrow> heap \<Rightarrow> genome \<Rightarrow> rng \<Rightarrow> heap \<times> genome \<times> rng" where
  "Genome_random_loop 0 h genes r = (h, genes, r)"
| "Genome_random_loop (Suc n) h genes r =
    (let (g, r1) = Gene_random r;
         (h1, a) = new_gene h g
     in Genome_random_loop n h1 (genes @ [a]) r1)"

definition Genome_random :: "heap \<Rightarrow> int \<Rightarrow> rng \<Rightarrow> heap \<times> genome \<times> rng" where
  "Genome_random h num_genes r = Genome_random_loop (nat num_genes) h [] r"

text \<open>The comprehension \<^verbatim>\<open>[g.copy() for g in genes]\<close>.\<close>

fun copy_genes :: "heap \<Rightarrow> genome \<Rightarrow> heap \<times> genome" where
  "copy_genes h [] = (h, [])"
| "copy_genes h (a # as) =
    (let (h1, a') = Gene_copy h a;
         (h2, as') = copy_genes h1 as
     in (h2, a' # as'))"

text \<open>\<^verbatim>\<open>list.pop(i)\<close> for a position \<open>i\<close> of the list (the only way the code calls it).\<close>

definition pop_at :: "'a list \<Rightarrow> nat \<Rightarrow> 'a list" where
  "pop_at xs i = take i xs @ drop (Suc i) xs"

text \<open>The point-mutation loop of \<^verbatim>\<open>Genome.mutate\<close>.\<close>

fun point_mutations :: "heap \<Rightarrow> genome \<Rightarrow> real \<Rightarrow> rng \<Rightarrow> heap \<times> rng" where
  "point_mutations h [] mutation_rate r = (h, r)"
| "point_mutations h (a # as) mutation_rate r =
    (let (u, r1) = random_random r
     in if u < mutation_rate
        then (let (h1, r2) = Gene_mutate h a r1 in point_mutations h1 as mutation_rate r2)
        else point_mutations h as mutation_rate r1)"

text \<open>\<^verbatim>\<open>Genome.mutate\<close>: point mutations, a deletion, an insertion.\<close>

definition Genome_mutate :: "heap \<Rightarrow> genome \<Rightarrow> real \<Rightarrow> rng \<Rightarrow> heap \<times> genome \<times> rng" where
  "Genome_mutate h genes mutation_rate r0 =
    (let (h1, r1) = point_mutations h genes mutation_rate r0;
         (u, r2) = random_random r1;
         (genes1, r3) =
           (if u < mutation_rate * 0.2 \<and> length genes > 1
            then (let (i, r') = random_randint 0 (int (length genes) - 1) r2
                  in (pop_at genes (nat i), r'))
            else (genes, r2));
         (u', r4) = random_random r3
     in if u' < mutation_rate * 0.2 \<and> length genes1 < 50
        then (let (g, r5) = Gene_random r4;
                  (h2, a) = new_gene h1 g
              in (h2, genes1 @ [a], r5))
        else (h1, genes1, r4))"

text \<open>\<^verbatim>\<open>Genome.crossover\<close>: a prefix of one parent followed by a suffix of the other.\<close>

definition Genome_crossover :: "heap \<Rightarrow> genome \<Rightarrow> genome \<Rightarrow> rng \<Rightarrow> heap \<times> genome \<times> rng" where
  "Genome_crossover h parent_a parent_b r0 =
    (let (parent_a_genes, r1) = random_randint 0 (int (length parent_a)) r0;
         (parent_b_genes, r2) = random_randint 0 (int (length parent_b)) r1;
         (h1, xs) = copy_genes h (take (nat parent_a_genes) parent_a);
         (h2, ys) = copy_genes h1 (drop (nat parent_b_genes) parent_b);
         child_genes = xs @ ys;
         child_genes = (if length child_genes > 50 then take 50 child_genes else child_genes)
     in if length child_genes = 0
        then (let (g, r3) = Gene_random r2;
                  (h3, a) = new_gene h2 g
              in (h3, [a], r3))
        else (h2, child_genes, r2))"

text \<open>
  Two relations between stores, used in the statements: a later store extends an earlier one
  when every object of the earlier one is still there and reads the same; a genome is fresh
  between two stores when all its genes were created after the first and exist in the second.
\<close>

definition extends :: "heap \<Rightarrow> heap \<Rightarrow> bool" where
  "extends h h' \<longleftrightarrow> length h \<le> length h' \<and> take (length h) h' = h"

definition fresh_in :: "heap \<Rightarrow> heap \<Rightarrow> genome \<Rightarrow> bool" where
  "fresh_in h h' c \<longleftrightarrow> list_all (\<lambda>a. length h \<le> a \<and> a < length h') c"

subsection \<open>Exceptions\<close>

datatype error = ZeroDivisionError | KeyError | ValueError

text \<open>Python's \<^verbatim>\<open>a % b\<close> on integers raises on a zero divisor.\<close>

definition py_mod :: "int \<Rightarrow> int \<Rightarrow> error + int" where
  "py_mod a b = (if b = 0 then Inl ZeroDivisionError else Inr (a mod b))"

subsection \<open>Brain (\<^verbatim>\<open>brain.py\<close>)\<close>

text \<open>
  A connection is the tuple \<^verbatim>\<open>(source_type, source_id, sink_type, sink_id, weight)\<close> with
  resolved identifiers. Dictionaries keyed by integers are maps.
\<close>

type_synonym connection = "int \<times> int \<times> int \<times> int \<times> real"
type_synonym dict = "int \<rightharpoonup> real"

record brain =
  num_sensors :: int
  num_actions :: int
  num_internal :: int
  connections :: "connection list"
  neuron_outputs :: dict

text \<open>The loop \<^verbatim>\<open>for i in range(n): d[i] = v\<close> on an empty dictionary.\<close>

definition range_dict :: "int \<Rightarrow> real \<Rightarrow> dict" where
  "range_dict n v = fold (\<lambda>i d. d(int i \<mapsto> v)) [0..<nat n] Map.empty"

text \<open>The loop of \<^verbatim>\<open>Brain.__init__\<close> over the genes: identifiers are folded by modulo.\<close>

fun resolve :: "gene list \<Rightarrow> int \<Rightarrow> int \<Rightarrow> int \<Rightarrow> connection list \<Rightarrow> error + connection list" where
  "resolve [] ns na ni conns = Inr conns"
| "resolve (g # gs) ns na ni conns =
    (case (if source_type g = 1 then py_mod (source_id g) ns else py_mod (source_id g) ni) of
       Inl e \<Rightarrow> Inl e
     | Inr source_id' \<Rightarrow>
        (case (if sink_type g = 1 then py_mod (sink_id g) na else py_mod (sink_id g) ni) of
           Inl e \<Rightarrow> Inl e
         | Inr sink_id' \<Rightarrow>
             resolve gs ns na ni
               (conns @ [(source_type g, source_id', sink_type g, sink_id', weight g)])))"

definition Brain_init :: "heap \<Rightarrow> genome \<Rightarrow> int \<Rightarrow> int \<Rightarrow> int \<Rightarrow> error + brain" where
  "Brain_init h genes ns na ni =
    (case resolve (genes_of h genes) ns na ni [] of
       Inl e \<Rightarrow> Inl e
     | Inr conns \<Rightarrow>
         Inr \<lparr>num_sensors = ns, num_actions = na, num_internal = ni,
              connections = conns, neuron_outputs = range_dict ni 0\<rparr>)"

text \<open>\<^verbatim>\<open>d.get(k, 0.0)\<close>.\<close>

definition dict_get :: "dict \<Rightarrow> int \<Rightarrow> real" where
  "dict_get d k = (case d k of None \<Rightarrow> 0 | Some v \<Rightarrow> v)"

text \<open>
  The connection loop of \<^verbatim>\<open>Brain.feed_forward\<close>. \<^verbatim>\<open>acc[sink_id] += signal\<close> raises
  \<^verbatim>\<open>KeyError\<close> on a key the accumulator does not hold.
\<close>

fun accumulate :: "brain \<Rightarrow> dict \<Rightarrow> connection list \<Rightarrow> dict \<Rightarrow> dict \<Rightarrow> error + (dict \<times> dict)" where
  "accumulate b sensor_values [] neuron_acc action_acc = Inr (neuron_acc, action_acc)"
| "accumulate b sensor_values ((src_t, src_i, snk_t, snk_i, w) # cs) neuron_acc action_acc =
    (let source_value = (if src_t = 1 then dict_get sensor_values src_i
                         else dict_get (neuron_outputs b) src_i);
         signal = source_value * w
     in if snk_t = 1
        then (case action_acc snk_i of
                None \<Rightarrow> Inl KeyError
              | Some v \<Rightarrow> accumulate b sensor_values cs neuron_acc (action_acc(snk_i \<mapsto> v + signal)))
        else (case neuron_acc snk_i of
                None \<Rightarrow> Inl KeyError
              | Some v \<Rightarrow> accumulate b sensor_values cs (neuron_acc(snk_i \<mapsto> v + signal)) action_acc))"

text \<open>The loops \<^verbatim>\<open>for i in range(n): out[i] = math.tanh(acc[i])\<close>.\<close>

fun squash :: "nat list \<Rightarrow> dict \<Rightarrow> dict \<Rightarrow> error + dict" where
  "squash [] acc out = Inr out"
| "squash (i # is) acc out =
    (case acc (int i) of
       None \<Rightarrow> Inl KeyError
     | Some v \<Rightarrow> squash is acc (out(int i \<mapsto> tanh v)))"

text \<open>
  \<^verbatim>\<open>Brain.feed_forward\<close>: the returned action outputs and the brain with its stored neuron
  outputs replaced.
\<close>

definition feed_forward :: "brain \<Rightarrow> dict \<Rightarrow> error + (dict \<times> brain)" where
  "feed_forward b sensor_values =
    (let neuron_accumulators = range_dict (num_internal b) 0;
         action_accumulators = range_dict (num_actions b) 0
     in case accumulate b sensor_values (connections b) neuron_accumulators action_accumulators of
          Inl e \<Rightarrow> Inl e
        | Inr (neuron_acc, action_acc) \<Rightarrow>
           (case squash [0..<nat (num_internal b)] neuron_acc (neuron_outputs b) of
              Inl e \<Rightarrow> Inl e
            | Inr outputs \<Rightarrow>
               (case squash [0..<nat (num_actions b)] action_acc Map.empty of
                  Inl e \<Rightarrow> Inl e
                | Inr action_outputs \<Rightarrow> Inr (action_outputs, b\<lparr>neuron_outputs := outputs\<rparr>))))"

text \<open>
  The reference definition of the evaluation, in the words of the specification: the value a
  connection reads, the sum of the signals into one sink, and the two result vectors.
\<close>

definition source_value_ref :: "brain \<Rightarrow> dict \<Rightarrow> connection \<Rightarrow> real" where
  "source_value_ref b sensor_values c =
    (case c of (src_t, src_i, snk_t, snk_i, w) \<Rightarrow>
       if src_t = 1 then (case sensor_values src_i of None \<Rightarrow> 0 | Some v \<Rightarrow> v)
       else (case neuron_outputs b src_i of None \<Rightarrow> 0 | Some v \<Rightarrow> v))"

definition sink_sum_ref :: "brain \<Rightarrow> dict \<Rightarrow> bool \<Rightarrow> int \<Rightarrow> real" where
  "sink_sum_ref b sensor_values to_action j =
    (\<Sum>c \<leftarrow> filter (\<lambda>(src_t, src_i, snk_t, snk_i, w). (snk_t = 1) = to_action \<and> snk_i = j)
              (connections b).
       source_value_ref b sensor_values c * snd (snd (snd (snd c))))"

definition action_outputs_ref :: "brain \<Rightarrow> dict \<Rightarrow> dict" where
  "action_outputs_ref b sensor_values =
    (\<lambda>j. if 0 \<le> j \<and> j < num_actions b then Some (tanh (sink_sum_ref b sensor_values True j))
         else None)"

definition neuron_outputs_ref :: "brain \<Rightarrow> dict \<Rightarrow> dict" where
  "neuron_outputs_ref b sensor_values =
    (\<lambda>i. if 0 \<le> i \<and> i < num_internal b then Some (tanh (sink_sum_ref b sensor_values False i))
         else neuron_outputs b i)"

text \<open>
  The sink of every connection is a key of its accumulator. \<open>Brain.__init__\<close> establishes it
  (by the modulo) whenever it returns.
\<close>

definition sinks_in_range :: "brain \<Rightarrow> bool" where
  "sinks_in_range b =
    list_all (\<lambda>(src_t, src_i, snk_t, snk_i, w).
        0 \<le> snk_i \<and> snk_i < (if snk_t = 1 then num_actions b else num_internal b))
      (connections b)"

text \<open>
  Names used in the proofs: the signal of one connection, the partial sums of the connection
  loop, and the connection one gene resolves to when no count is zero.
\<close>

definition signal_of :: "brain \<Rightarrow> dict \<Rightarrow> connection \<Rightarrow> real" where
  "signal_of b sv c = source_value_ref b sv c * snd (snd (snd (snd c)))"

definition part_sum :: "brain \<Rightarrow> dict \<Rightarrow> connection list \<Rightarrow> bool \<Rightarrow> int \<Rightarrow> real" where
  "part_sum b sv cs to_action j =
    (\<Sum>c \<leftarrow> filter (\<lambda>(src_t, src_i, snk_t, snk_i, w). (snk_t = 1) = to_action \<and> snk_i = j) cs.
       signal_of b sv c)"

definition resolve_gene :: "int \<Rightarrow> int \<Rightarrow> int \<Rightarrow> gene \<Rightarrow> connection" where
  "resolve_gene ns na ni g =
    (source_type g, source_id g mod (if source_type g = 1 then ns else ni),
     sink_type g, sink_id g mod (if sink_type g = 1 then na else ni), weight g)"

subsection \<open>Raising operations\<close>

text \<open>
  Sequencing of operations that may raise: the first exception ends the computation.
  \<^verbatim>\<open>a / b\<close> raises on a zero divisor; \<^verbatim>\<open>d[k]\<close> raises on a missing key.
\<close>

definition bind_err :: "error + 'a \<Rightarrow> ('a \<Rightarrow> error + 'b) \<Rightarrow> error + 'b" where
  "bind_err m f = (case m of Inl e \<Rightarrow> Inl e | Inr v \<Rightarrow> f v)"

definition py_truediv :: "real \<Rightarrow> real \<Rightarrow> error + real" where
  "py_truediv a b = (if b = 0 then Inl ZeroDivisionError else Inr (a / b))"

definition dict_index :: "dict \<Rightarrow> int \<Rightarrow> error + real" where
  "dict_index d k = (case d k of None \<Rightarrow> Inl KeyError | Some v \<Rightarrow> Inr v)"

subsection \<open>Grid (\<^verbatim>\<open>grid.py\<close>)\<close>

text \<open>
  The occupancy array holds 0 for an empty cell and the creature's index plus one otherwise.
  The engine reads and writes it only at coordinates it has checked with \<open>in_bounds\<close>, drawn
  with \<^verbatim>\<open>randint(0, width - 1)\<close>, or taken from a creature placed that way, so the array is a
  total function of the cell and an out-of-range access is not modelled.
  \<^verbatim>\<open>np.zeros\<close> raises \<^verbatim>\<open>ValueError\<close> on a negative dimension.
\<close>

record grid =
  width :: int
  height :: int
  data :: "int \<times> int \<Rightarrow> int"
  barriers :: "(int \<times> int) set"

definition Grid_init :: "int \<Rightarrow> int \<Rightarrow> error + grid" where
  "Grid_init w h =
    (if w < 0 \<or> h < 0 then Inl ValueError
     else Inr \<lparr>width = w, height = h, data = (\<lambda>c. 0), barriers = {}\<rparr>)"

definition in_bounds :: "grid \<Rightarrow> int \<Rightarrow> int \<Rightarrow> bool" where
  "in_bounds g x y \<longleftrightarrow> 0 \<le> x \<and> x < width g \<and> 0 \<le> y \<and> y < height g"

definition is_empty :: "grid \<Rightarrow> int \<Rightarrow> int \<Rightarrow> bool" where
  "is_empty g x y \<longleftrightarrow> data g (x, y) = 0 \<and> (x, y) \<notin> barriers g"

definition is_barrier :: "grid \<Rightarrow> int \<Rightarrow> int \<Rightarrow> bool" where
  "is_barrier g x y \<longleftrightarrow> (x, y) \<in> barriers g"

definition is_occupied :: "grid \<Rightarrow> int \<Rightarrow> int \<Rightarrow> bool" where
  "is_occupied g x y \<longleftrightarrow> data g (x, y) \<noteq> 0"

definition Grid_set :: "grid \<Rightarrow> int \<Rightarrow> int \<Rightarrow> int \<Rightarrow> grid" where
  "Grid_set g x y index = g\<lparr>data := (data g)((x, y) := index + 1)\<rparr>"

definition Grid_move :: "grid \<Rightarrow> int \<Rightarrow> int \<Rightarrow> int \<Rightarrow> int \<Rightarrow> grid" where
  "Grid_move g old_x old_y new_x new_y =
    (let g1 = g\<lparr>data := (data g)((new_x, new_y) := data g (old_x, old_y))\<rparr>
     in g1\<lparr>data := (data g1)((old_x, old_y) := 0)\<rparr>)"

definition Grid_clear :: "grid \<Rightarrow> grid" where
  "Grid_clear g = g\<lparr>data := (\<lambda>c. 0)\<rparr>"

subsection \<open>Individual (\<^verbatim>\<open>individual.py\<close>)\<close>

text \<open>
  \<^verbatim>\<open>NUM_SENSORS = len(Sensor)\<close>, \<^verbatim>\<open>NUM_ACTIONS = len(Action)\<close> and the module constant
  \<^verbatim>\<open>NUM_INTERNAL = 4\<close>. Sensors and actions are the integers of their \<^verbatim>\<open>IntEnum\<close>.
\<close>

definition NUM_SENSORS :: int where
  "NUM_SENSORS = 12"

definition NUM_ACTIONS :: int where
  "NUM_ACTIONS = 5"

definition NUM_INTERNAL :: int where
  "NUM_INTERNAL = 4"

text \<open>The fields \<^verbatim>\<open>x\<close> and \<^verbatim>\<open>y\<close> of the class are \<open>pos_x\<close> and \<open>pos_y\<close> here.\<close>

record individual =
  genome :: genome
  pos_x :: int
  pos_y :: int
  brain :: brain
  alive :: bool
  last_dx :: int
  last_dy :: int
  responsiveness :: real

text \<open>\<^verbatim>\<open>Individual.__init__(genome, x, y)\<close>.\<close>

definition Individual_init :: "heap \<Rightarrow> genome \<Rightarrow> int \<Rightarrow> int \<Rightarrow> error + individual" where
  "Individual_init h genome' x y =
    bind_err (Brain_init h genome' NUM_SENSORS NUM_ACTIONS NUM_INTERNAL) (\<lambda>brain'.
      Inr \<lparr>genome = genome', pos_x = x, pos_y = y, brain = brain', alive = True,
           last_dx = 0, last_dy = 0, responsiveness = 0.5\<rparr>)"

text \<open>\<^verbatim>\<open>Individual.compute_sensors\<close>: the dictionary of the twelve sensor values.\<close>

definition compute_sensors ::
  "individual \<Rightarrow> grid \<Rightarrow> int \<Rightarrow> int \<Rightarrow> rng \<Rightarrow> error + (dict \<times> rng)" where
  "compute_sensors self g step steps_per_gen' r0 =
    bind_err (py_truediv (of_int (pos_x self)) (of_int (width g - 1))) (\<lambda>loc_x.
    bind_err (py_truediv (of_int (pos_y self)) (of_int (height g - 1))) (\<lambda>loc_y.
    let dist_to_edge = min (min (min (pos_x self) (pos_y self)) (width g - 1 - pos_x self))
                           (height g - 1 - pos_y self);
        max_possible = min (width g) (height g) div 2
    in
    bind_err (py_truediv (of_int dist_to_edge) (of_int max_possible)) (\<lambda>boundary_dist.
    bind_err (py_truediv (of_int step) (of_int steps_per_gen')) (\<lambda>age.
    let last_move_dir_x = of_int (last_dx self + 1) / 2;
        last_move_dir_y = of_int (last_dy self + 1) / 2;
        (rnd, r1) = random_random r0;
        dist_left = pos_x self;
        dist_right = width g - 1 - pos_x self;
        nearest_edge_x = (if dist_left \<le> dist_right then 0 else 1);
        dist_bottom = pos_y self;
        dist_top = height g - 1 - pos_y self;
        nearest_edge_y = (if dist_bottom \<le> dist_top then 0 else 1);
        neighbors = length (filter
           (\<lambda>(dx, dy). in_bounds g (pos_x self + dx) (pos_y self + dy) \<and>
                       is_occupied g (pos_x self + dx) (pos_y self + dy))
           [(- 1, 0), (1, 0), (0, - 1), (0, 1)]);
        population_density = of_nat neighbors / 4.0;
        fx = pos_x self + last_dx self;
        fy = pos_y self + last_dy self;
        blocked_forward = (if \<not> in_bounds g fx fy \<or> \<not> is_empty g fx fy then 1 else 0);
        oscillator = (sin (2 * pi * of_int step / of_int steps_per_gen') + 1) / 2
    in Inr ([0 \<mapsto> loc_x, 1 \<mapsto> loc_y, 2 \<mapsto> boundary_dist, 3 \<mapsto> age,
             4 \<mapsto> last_move_dir_x, 5 \<mapsto> last_move_dir_y, 6 \<mapsto> rnd,
             7 \<mapsto> nearest_edge_x, 8 \<mapsto> nearest_edge_y, 9 \<mapsto> population_density,
             10 \<mapsto> blocked_forward, 11 \<mapsto> oscillator], r1)))))"

text \<open>
  \<^verbatim>\<open>Individual.execute_actions\<close>: the four stochastic movement actions, the responsiveness
  update, the clamp and the attempted move.
\<close>

definition execute_actions ::
  "individual \<Rightarrow> dict \<Rightarrow> grid \<Rightarrow> rng \<Rightarrow> error + (individual \<times> grid \<times> rng)" where
  "execute_actions self action_outputs g r0 =
    bind_err (dict_index action_outputs 0) (\<lambda>val_x.
    let (u0, r1) = random_random r0;
        move_dx0 = (if u0 < \<bar>val_x\<bar> * responsiveness self
                    then (if val_x > 0 then 1 else - 1) else 0)
    in
    bind_err (dict_index action_outputs 1) (\<lambda>val_y.
    let (u1, r2) = random_random r1;
        move_dy0 = (if u1 < \<bar>val_y\<bar> * responsiveness self
                    then (if val_y > 0 then 1 else - 1) else 0)
    in
    bind_err (dict_index action_outputs 2) (\<lambda>val_f.
    let (u2, r3) = random_random r2;
        forward = (u2 < \<bar>val_f\<bar> * responsiveness self);
        move_dx1 = (if forward then move_dx0 + last_dx self else move_dx0);
        move_dy1 = (if forward then move_dy0 + last_dy self else move_dy0)
    in
    bind_err (dict_index action_outputs 3) (\<lambda>val_r.
    let (u3, r4) = random_random r3;
        (move_dx2, move_dy2, r6) =
          (if u3 < \<bar>val_r\<bar> * responsiveness self
           then (let (c1, r5) = random_choice [- 1, 0, 1] r4;
                     (c2, r6) = random_choice [- 1, 0, 1] r5
                 in (move_dx1 + c1, move_dy1 + c2, r6))
           else (move_dx1, move_dy1, r4))
    in
    bind_err (dict_index action_outputs 4) (\<lambda>val_s.
    let self1 = self\<lparr>responsiveness := (responsiveness self + (val_s + 1) / 2) / 2\<rparr>;
        move_dx = max (- 1) (min 1 move_dx2);
        move_dy = max (- 1) (min 1 move_dy2);
        new_x = pos_x self1 + move_dx;
        new_y = pos_y self1 + move_dy
    in if (move_dx \<noteq> 0 \<or> move_dy \<noteq> 0) \<and> in_bounds g new_x new_y \<and> is_empty g new_x new_y
       then Inr (self1\<lparr>pos_x := new_x, pos_y := new_y, last_dx := move_dx, last_dy := move_dy\<rparr>,
                 Grid_move g (pos_x self1) (pos_y self1) new_x new_y, r6)
       else Inr (self1, g, r6))))))"

text \<open>\<^verbatim>\<open>Individual.take_step\<close>: sense, think, act.\<close>

definition take_step ::
  "individual \<Rightarrow> grid \<Rightarrow> int \<Rightarrow> int \<Rightarrow> rng \<Rightarrow> error + (individual \<times> grid \<times> rng)" where
  "take_step self g step steps_per_gen' r0 =
    (if \<not> alive self then Inr (self, g, r0)
     else
       bind_err (compute_sensors self g step steps_per_gen' r0) (\<lambda>(sensors, r1).
       bind_err (feed_forward (brain self) sensors) (\<lambda>(action_outputs, brain').
       execute_actions (self\<lparr>brain := brain'\<rparr>) action_outputs g r1)))"

subsection \<open>Simulation (\<^verbatim>\<open>simulation.py\<close>)\<close>

text \<open>The members of \<^verbatim>\<open>SelectionCriteria\<close>, an \<^verbatim>\<open>IntEnum\<close>.\<close>

definition RIGHT_HALF :: int where
  "RIGHT_HALF = 0"

definition LEFT_HALF :: int where
  "LEFT_HALF = 1"

definition CENTER_CIRCLE :: int where
  "CENTER_CIRCLE = 2"

definition CORNERS :: int where
  "CORNERS = 3"

definition RIGHT_QUARTER :: int where
  "RIGHT_QUARTER = 4"

text \<open>
  The dictionary \<^verbatim>\<open>stats\<close> of one generation, with its keys \<^verbatim>\<open>generation\<close>,
  \<^verbatim>\<open>survivors\<close>, \<^verbatim>\<open>survival_rate\<close>, \<^verbatim>\<open>kill_count\<close> and \<^verbatim>\<open>avg_genome_length\<close>.
\<close>

record stats =
  stat_generation :: int
  stat_survivors :: int
  stat_survival_rate :: real
  stat_kill_count :: int
  stat_avg_genome_length :: real

record simulation =
  world_width :: int
  world_height :: int
  population_size :: int
  genome_length :: int
  num_internal_neurons :: int
  steps_per_gen :: int
  mutation_rate :: real
  selection :: int
  grid :: grid
  individuals :: "individual list"
  generation :: int
  current_step :: int
  kill_count :: int
  history :: "stats list"

text \<open>\<^verbatim>\<open>Simulation.__init__\<close>.\<close>

definition Simulation_init ::
  "int \<Rightarrow> int \<Rightarrow> int \<Rightarrow> int \<Rightarrow> int \<Rightarrow> int \<Rightarrow> real \<Rightarrow> int \<Rightarrow> error + simulation" where
  "Simulation_init world_width' world_height' population_size' genome_length'
      num_internal_neurons' steps_per_gen' mutation_rate' selection' =
    bind_err (Grid_init world_width' world_height') (\<lambda>grid'.
      Inr \<lparr>world_width = world_width', world_height = world_height',
           population_size = population_size', genome_length = genome_length',
           num_internal_neurons = num_internal_neurons', steps_per_gen = steps_per_gen',
           mutation_rate = mutation_rate', selection = selection',
           grid = grid', individuals = [], generation = 0, current_step = 0,
           kill_count = 0, history = []\<rparr>)"

text \<open>
  \<^verbatim>\<open>Simulation._random_empty_location\<close>: draw coordinates until the cell is free. The loop
  does not end when no cell is free; not returning is \<open>None\<close>.
\<close>

partial_function (option) random_empty_location ::
    "simulation \<Rightarrow> rng \<Rightarrow> (error + ((int \<times> int) \<times> rng)) option" where
  "random_empty_location s r0 =
    (if world_width s - 1 < 0 then Some (Inl ValueError)
     else (let (x, r1) = random_randint 0 (world_width s - 1) r0
           in if world_height s - 1 < 0 then Some (Inl ValueError)
              else (let (y, r2) = random_randint 0 (world_height s - 1) r1
                    in if 0 \<le> x \<and> x < world_width s \<and> 0 \<le> y \<and> y < world_height s \<and>
                          \<not> is_occupied (grid s) x y \<and> \<not> is_barrier (grid s) x y
                       then Some (Inr ((x, y), r2))
                       else random_empty_location s r2)))"

text \<open>The loop \<^verbatim>\<open>for _ in range(n): genomes.append(Genome.random(genome_length))\<close>.\<close>

fun random_genomes ::
    "nat \<Rightarrow> int \<Rightarrow> heap \<Rightarrow> rng \<Rightarrow> genome list \<Rightarrow> genome list \<times> heap \<times> rng" where
  "random_genomes 0 len h r genomes = (genomes, h, r)"
| "random_genomes (Suc n) len h r genomes =
    (let (h1, g, r1) = Genome_random h len r
     in random_genomes n len h1 r1 (genomes @ [g]))"

text \<open>The placement loop of \<^verbatim>\<open>spawn_generation\<close>, over \<^verbatim>\<open>enumerate(genomes)\<close>.\<close>

fun spawn_loop ::
    "simulation \<Rightarrow> genome list \<Rightarrow> int \<Rightarrow> heap \<Rightarrow> rng \<Rightarrow> (error + (simulation \<times> rng)) option" where
  "spawn_loop s [] i h r = Some (Inr (s, r))"
| "spawn_loop s (g # gs) i h r =
    (case random_empty_location s r of
       None \<Rightarrow> None
     | Some (Inl e) \<Rightarrow> Some (Inl e)
     | Some (Inr ((x, y), r1)) \<Rightarrow>
        (case Individual_init h g x y of
           Inl e \<Rightarrow> Some (Inl e)
         | Inr indiv \<Rightarrow>
             spawn_loop (s\<lparr>individuals := individuals s @ [indiv],
                            grid := Grid_set (grid s) x y i\<rparr>) gs (i + 1) h r1))"

text \<open>\<^verbatim>\<open>Simulation.spawn_generation(genomes=None)\<close>.\<close>

definition spawn_generation ::
    "simulation \<Rightarrow> genome list option \<Rightarrow> heap \<Rightarrow> rng \<Rightarrow>
     (error + (simulation \<times> heap \<times> rng)) option" where
  "spawn_generation s genomes h r0 =
    (let s1 = s\<lparr>grid := Grid_clear (grid s), individuals := [], current_step := 0,
                kill_count := 0\<rparr>;
         (genomes', h1, r1) =
           (case genomes of
              None \<Rightarrow> random_genomes (nat (population_size s)) (genome_length s) h r0 []
            | Some gs \<Rightarrow> (gs, h, r0))
     in case spawn_loop s1 genomes' 0 h1 r1 of
          None \<Rightarrow> None
        | Some (Inl e) \<Rightarrow> Some (Inl e)
        | Some (Inr (s2, r2)) \<Rightarrow> Some (Inr (s2, h1, r2)))"

text \<open>
  The loop of \<^verbatim>\<open>run_step\<close> over the population: each creature steps in turn on the grid
  the earlier ones left.
\<close>

fun step_individuals ::
    "individual list \<Rightarrow> grid \<Rightarrow> int \<Rightarrow> int \<Rightarrow> rng \<Rightarrow> error + (individual list \<times> grid \<times> rng)" where
  "step_individuals [] g step spg r = Inr ([], g, r)"
| "step_individuals (indiv # rest) g step spg r =
    (if \<not> alive indiv
     then bind_err (step_individuals rest g step spg r) (\<lambda>(rest', g', r').
            Inr (indiv # rest', g', r'))
     else bind_err (take_step indiv g step spg r) (\<lambda>(indiv', g1, r1).
          bind_err (step_individuals rest g1 step spg r1) (\<lambda>(rest', g', r').
            Inr (indiv' # rest', g', r'))))"

definition run_step :: "simulation \<Rightarrow> rng \<Rightarrow> error + (simulation \<times> rng)" where
  "run_step s r =
    bind_err (step_individuals (individuals s) (grid s) (current_step s) (steps_per_gen s) r)
      (\<lambda>(individuals', grid', r').
        Inr (s\<lparr>individuals := individuals', grid := grid',
                current_step := current_step s + 1\<rparr>, r'))"

text \<open>\<^verbatim>\<open>run_all_steps\<close>: \<^verbatim>\<open>for _ in range(self.steps_per_gen): self.run_step()\<close>.\<close>

fun run_steps :: "nat \<Rightarrow> simulation \<Rightarrow> rng \<Rightarrow> error + (simulation \<times> rng)" where
  "run_steps 0 s r = Inr (s, r)"
| "run_steps (Suc n) s r = bind_err (run_step s r) (\<lambda>(s1, r1). run_steps n s1 r1)"

definition run_all_steps :: "simulation \<Rightarrow> rng \<Rightarrow> error + (simulation \<times> rng)" where
  "run_all_steps s r = run_steps (nat (steps_per_gen s)) s r"

text \<open>\<^verbatim>\<open>Simulation._survives\<close>.\<close>

definition survives :: "simulation \<Rightarrow> individual \<Rightarrow> bool" where
  "survives s indiv =
    (let w = world_width s;
         h = world_height s
     in if selection s = RIGHT_HALF then pos_x indiv \<ge> w div 2
        else if selection s = LEFT_HALF then pos_x indiv < w div 2
        else if selection s = CENTER_CIRCLE then
          (let cx = real_of_int w / 2;
               cy = real_of_int h / 2;
               radius = real_of_int (min w h) / 4;
               dist_sq = (real_of_int (pos_x indiv) - cx) ^ 2 + (real_of_int (pos_y indiv) - cy) ^ 2
           in dist_sq \<le> radius ^ 2)
        else if selection s = CORNERS then
          (let quarter_w = w div 4;
               quarter_h = h div 4;
               in_left = pos_x indiv < quarter_w;
               in_right = pos_x indiv \<ge> w - quarter_w;
               in_bottom = pos_y indiv < quarter_h;
               in_top = pos_y indiv \<ge> h - quarter_h
           in (in_left \<or> in_right) \<and> (in_bottom \<or> in_top))
        else if selection s = RIGHT_QUARTER then pos_x indiv \<ge> w * 3 div 4
        else True)"

text \<open>\<^verbatim>\<open>Simulation.apply_selection\<close>: the list of survivors.\<close>

definition apply_selection :: "simulation \<Rightarrow> individual list" where
  "apply_selection s = filter (\<lambda>indiv. alive indiv \<and> survives s indiv) (individuals s)"

text \<open>
  \<^verbatim>\<open>Simulation.reproduce\<close>. Its three loops run \<^verbatim>\<open>population_size\<close> times and append one
  child each; the body of the second and of the third loop are functions of their own here.
\<close>

definition asexual_child :: "simulation \<Rightarrow> genome \<Rightarrow> heap \<Rightarrow> rng \<Rightarrow> heap \<times> genome \<times> rng" where
  "asexual_child s parent h r =
    (let (h1, child) = copy_genes h parent
     in Genome_mutate h1 child (mutation_rate s) r)"

definition sexual_child ::
    "simulation \<Rightarrow> individual list \<Rightarrow> heap \<Rightarrow> rng \<Rightarrow> heap \<times> genome \<times> rng" where
  "sexual_child s survivors h r =
    (let ((i, j), r1) = random_sample2 (length survivors) r;
         parent_a = survivors ! i;
         parent_b = survivors ! j;
         (h1, child, r2) = Genome_crossover h (genome parent_a) (genome parent_b) r1
     in Genome_mutate h1 child (mutation_rate s) r2)"

fun children_loop ::
    "nat \<Rightarrow> (heap \<Rightarrow> rng \<Rightarrow> heap \<times> genome \<times> rng) \<Rightarrow> heap \<Rightarrow> rng \<Rightarrow> genome list \<Rightarrow>
     genome list \<times> heap \<times> rng" where
  "children_loop 0 body h r children = (children, h, r)"
| "children_loop (Suc n) body h r children =
    (let (h1, child, r1) = body h r
     in children_loop n body h1 r1 (children @ [child]))"

text \<open>
  The store and the generator on entry to iteration \<open>k\<close> of that loop, that is after \<open>k\<close>
  children were made (used to say which generator state each child is drawn from).
\<close>

fun loop_state ::
    "nat \<Rightarrow> (heap \<Rightarrow> rng \<Rightarrow> heap \<times> genome \<times> rng) \<Rightarrow> heap \<Rightarrow> rng \<Rightarrow> heap \<times> rng" where
  "loop_state 0 body h r = (h, r)"
| "loop_state (Suc k) body h r =
    (let (h1, child, r1) = body h r
     in loop_state k body h1 r1)"

definition reproduce ::
    "simulation \<Rightarrow> individual list \<Rightarrow> heap \<Rightarrow> rng \<Rightarrow> genome list \<times> heap \<times> rng" where
  "reproduce s survivors h r =
    (if length survivors = 0
     then random_genomes (nat (population_size s)) (genome_length s) h r []
     else if length survivors = 1
     then (let parent = genome (survivors ! 0)
           in children_loop (nat (population_size s)) (asexual_child s parent) h r [])
     else children_loop (nat (population_size s)) (sexual_child s survivors) h r [])"

text \<open>\<^verbatim>\<open>Simulation.run_one_generation\<close>; what it prints is not modelled.\<close>

definition run_one_generation ::
    "simulation \<Rightarrow> heap \<Rightarrow> rng \<Rightarrow> (error + (stats \<times> simulation \<times> heap \<times> rng)) option" where
  "run_one_generation s h r0 =
    (case run_all_steps s r0 of
       Inl e \<Rightarrow> Some (Inl e)
     | Inr (s1, r1) \<Rightarrow>
        (let survivors = apply_selection s1;
             num_survivors = int (length survivors)
         in case py_truediv (of_int num_survivors) (of_int (population_size s1)) of
              Inl e \<Rightarrow> Some (Inl e)
            | Inr survival_rate \<Rightarrow>
               (let avg_genome_len =
                      (if survivors \<noteq> []
                       then of_nat (sum_list (map (\<lambda>i. length (genome i)) survivors))
                              / of_nat (length survivors)
                       else 0.0);
                    stats' = \<lparr>stat_generation = generation s1, stat_survivors = num_survivors,
                              stat_survival_rate = survival_rate,
                              stat_kill_count = kill_count s1,
                              stat_avg_genome_length = avg_genome_len\<rparr>;
                    s2 = s1\<lparr>history := history s1 @ [stats']\<rparr>;
                    (child_genomes, h1, r2) = reproduce s2 survivors h r1;
                    s3 = s2\<lparr>generation := generation s2 + 1\<rparr>
                in case spawn_generation s3 (Some child_genomes) h1 r2 of
                     None \<Rightarrow> None
                   | Some (Inl e) \<Rightarrow> Some (Inl e)
                   | Some (Inr (s4, h2, r3)) \<Rightarrow> Some (Inr (stats', s4, h2, r3)))))"

text \<open>\<^verbatim>\<open>Simulation.run\<close>: \<^verbatim>\<open>for _ in range(num_generations): self.run_one_generation()\<close>.\<close>

fun run_generations ::
    "nat \<Rightarrow> simulation \<Rightarrow> heap \<Rightarrow> rng \<Rightarrow> (error + (simulation \<times> heap \<times> rng)) option" where
  "run_generations 0 s h r = Some (Inr (s, h, r))"
| "run_generations (Suc n) s h r =
    (case run_one_generation s h r of
       None \<Rightarrow> None
     | Some (Inl e) \<Rightarrow> Some (Inl e)
     | Some (Inr (st, s1, h1, r1)) \<Rightarrow> run_generations n s1 h1 r1)"

definition run :: "simulation \<Rightarrow> int \<Rightarrow> heap \<Rightarrow> rng \<Rightarrow> (error + (simulation \<times> heap \<times> rng)) option" where
  "run s num_generations h r = run_generations (nat num_generations) s h r"

text \<open>
  The survival predicate as the specification writes it, with \<open>/\<close> read as division of
  real numbers throughout (the reading its \<open>CENTER_CIRCLE\<close> formula needs), and the same
  with \<open>/\<close> read as floor division throughout; both are only compared with the code.
\<close>

definition survives_spec :: "int \<Rightarrow> int \<Rightarrow> int \<Rightarrow> int \<Rightarrow> int \<Rightarrow> bool" where
  "survives_spec sel w h x y =
    (if sel = RIGHT_HALF then of_int x \<ge> real_of_int w / 2
     else if sel = LEFT_HALF then of_int x < real_of_int w / 2
     else if sel = CENTER_CIRCLE then
       (of_int x - real_of_int w / 2) ^ 2 + (of_int y - real_of_int h / 2) ^ 2
         \<le> (real_of_int (min w h) / 4) ^ 2
     else if sel = CORNERS then
       (of_int x < real_of_int w / 4 \<or> of_int x \<ge> real_of_int w - real_of_int w / 4) \<and>
       (of_int y < real_of_int h / 4 \<or> of_int y \<ge> real_of_int h - real_of_int h / 4)
     else if sel = RIGHT_QUARTER then of_int x \<ge> 3 * real_of_int w / 4
     else True)"

definition survives_spec_floor :: "int \<Rightarrow> int \<Rightarrow> int \<Rightarrow> int \<Rightarrow> int \<Rightarrow> bool" where
  "survives_spec_floor sel w h x y =
    (if sel = RIGHT_HALF then x \<ge> w div 2
     else if sel = LEFT_HALF then x < w div 2
     else if sel = CENTER_CIRCLE then
       (x - w div 2) ^ 2 + (y - h div 2) ^ 2 \<le> (min w h div 4) ^ 2
     else if sel = CORNERS then
       (x < w div 4 \<or> x \<ge> w - w div 4) \<and> (y < h div 4 \<or> y \<ge> h - h div 4)
     else if sel = RIGHT_QUARTER then x \<ge> 3 * w div 4
     else True)"

text \<open>Concrete inputs for the examples: a world of a given size and a creature at a cell.\<close>

definition example_world :: "int \<Rightarrow> int \<Rightarrow> int \<Rightarrow> int \<Rightarrow> simulation" where
  "example_world w h num_internal' sel =
    \<lparr>world_width = w, world_height = h, population_size = 1, genome_length = 1,
     num_internal_neurons = num_internal', steps_per_gen = 1, mutation_rate = 0, selection = sel,
     grid = \<lparr>width = w, height = h, data = (\<lambda>c. 0), barriers = {}\<rparr>,
     individuals = [], generation = 0, current_step = 0, kill_count = 0, history = []\<rparr>"

definition example_creature :: "int \<Rightarrow> int \<Rightarrow> individual" where
  "example_creature x y =
    \<lparr>genome = [], pos_x = x, pos_y = y,
     brain = \<lparr>num_sensors = NUM_SENSORS, num_actions = NUM_ACTIONS, num_internal = NUM_INTERNAL,
              connections = [], neuron_outputs = range_dict NUM_INTERNAL 0\<rparr>,
     alive = True, last_dx = 0, last_dy = 0, responsiveness = 0.5\<rparr>"

text \<open>
  The states an engine can be in: the state \<^verbatim>\<open>Simulation.__init__\<close> builds, and every state
  one of the state-changing methods returns in, from any store of genes and any state of the
  generator. (\<open>apply_selection\<close> and \<open>reproduce\<close> return values and leave the engine as it
  is.) A method that raises or does not return has no successor state.
\<close>

inductive reachable :: "simulation \<Rightarrow> bool" where
  init: "Simulation_init w h p gl k spg mr sel = Inr s \<Longrightarrow> reachable s"
| spawn: "reachable s \<Longrightarrow> spawn_generation s genomes hp r = Some (Inr (s', hp', r')) \<Longrightarrow>
          reachable s'"
| step: "reachable s \<Longrightarrow> run_step s r = Inr (s', r') \<Longrightarrow> reachable s'"
| all_steps: "reachable s \<Longrightarrow> run_all_steps s r = Inr (s', r') \<Longrightarrow> reachable s'"
| one_generation: "reachable s \<Longrightarrow> run_one_generation s hp r = Some (Inr (st, s', hp', r')) \<Longrightarrow>
          reachable s'"
| generations: "reachable s \<Longrightarrow> run s n hp r = Some (Inr (s', hp', r')) \<Longrightarrow> reachable s'"

text \<open>
  The invariant of the engine that the claims state: every creature of the population is
  alive, no kill has been counted, and no record of the history reports one.
\<close>

definition no_kills :: "simulation \<Rightarrow> bool" where
  "no_kills s \<longleftrightarrow>
     list_all alive (individuals s) \<and> kill_count s = 0 \<and>
     list_all (\<lambda>st. stat_kill_count st = 0) (history s)"

section \<open>Binary64 rounding\<close>

text \<open>
  Facts about \<open>round64\<close>: it is odd, it moves a value by at most half a unit in the last
  place, it leaves binary64 values alone, it never crosses an integer below \<open>2 ^ 53\<close>, and its
  value is determined by the binade of its argument and the nearest multiple of the unit in
  the last place.
\<close>

lemma ulp_pos [simp]: "0 < ulp v"
  by (simp add: ulp_def)

lemma round_half_even_error: "\<bar>of_int (round_half_even v) - v\<bar> \<le> 1 / 2"
  unfolding round_half_even_def Let_def by (auto simp add: abs_if) linarith+

lemma round_half_even_near:
  assumes "\<bar>v - of_int m\<bar> < 1 / 2"
  shows "round_half_even v = m"
proof -
  have "\<bar>of_int (round_half_even v) - v\<bar> \<le> 1 / 2"
    by (rule round_half_even_error)
  with assms have "\<bar>real_of_int (round_half_even v) - of_int m\<bar> < 1"
    by linarith
  then have "\<bar>real_of_int (round_half_even v - m)\<bar> < 1"
    by simp
  then have "\<bar>round_half_even v - m\<bar> < 1"
    by linarith
  then show ?thesis
    by linarith
qed

lemma round_half_even_of_int [simp]: "round_half_even (of_int m) = m"
  by (rule round_half_even_near) simp

lemma round_half_even_minus: "round_half_even (- v) = - round_half_even v"
proof (cases "v = of_int \<lfloor>v\<rfloor>")
  case True
  then obtain m where "v = of_int m" ..
  then show ?thesis
    by (simp flip: of_int_minus)
next
  case False
  then have f: "\<lfloor>- v\<rfloor> = - \<lfloor>v\<rfloor> - 1"
    by (metis ceiling_def ceiling_altdef diff_minus_eq_add minus_add_cancel minus_diff_eq uminus_add_conv_diff)
  show ?thesis
    unfolding round_half_even_def Let_def f
    by (auto simp add: field_simps) 
qed

lemma bexp_eqI:
  assumes "2 powr of_int e \<le> \<bar>v\<bar>" "\<bar>v\<bar> < 2 powr (of_int e + 1)" "- 1022 \<le> e"
  shows "bexp v = e"
proof -
  from assms(1) have "0 < \<bar>v\<bar>"
    using powr_gt_zero [of 2 "of_int e"] by linarith
  then have "\<lfloor>log 2 \<bar>v\<bar>\<rfloor> = e"
    using assms(1,2) by (simp add: floor_log_eq_powr_iff)
  with assms(3) show ?thesis
    by (simp add: bexp_def)
qed

lemma bexp_minus [simp]: "bexp (- v) = bexp v"
  by (simp add: bexp_def)

lemma ulp_minus [simp]: "ulp (- v) = ulp v"
  by (simp add: ulp_def)

lemma round64_minus: "round64 (- v) = - round64 v"
  by (simp add: round64_def round_half_even_minus)

lemma round64_error: "\<bar>round64 v - v\<bar> \<le> ulp v / 2"
proof (cases "v = 0")
  case True
  then show ?thesis by (simp add: round64_def less_imp_le)
next
  case False
  have "\<bar>of_int (round_half_even (v / ulp v)) - v / ulp v\<bar> \<le> 1 / 2"
    by (rule round_half_even_error)
  then have "\<bar>of_int (round_half_even (v / ulp v)) - v / ulp v\<bar> * ulp v \<le> 1 / 2 * ulp v"
    by (intro mult_right_mono) (simp_all add: less_imp_le)
  moreover have "\<bar>of_int (round_half_even (v / ulp v)) - v / ulp v\<bar> * ulp v =
      \<bar>of_int (round_half_even (v / ulp v)) * ulp v - v\<bar>"
  proof -
    have "of_int (round_half_even (v / ulp v)) * ulp v - v =
        (of_int (round_half_even (v / ulp v)) - v / ulp v) * ulp v"
      using ulp_pos [of v] by (simp add: field_simps del: ulp_pos)
    then show ?thesis
      using ulp_pos [of v] by (simp add: abs_mult less_imp_le del: ulp_pos)
  qed
  ultimately show ?thesis
    using False by (simp add: round64_def)
qed

lemma round64_near:
  assumes "2 powr of_int e \<le> \<bar>v\<bar>" "\<bar>v\<bar> < 2 powr (of_int e + 1)" "- 1022 \<le> e"
    and "\<bar>v - of_int m * 2 powr (of_int e - 52)\<bar> < 2 powr (of_int e - 53)"
  shows "round64 v = of_int m * 2 powr (of_int e - 52)"
proof -
  have e: "bexp v = e"
    using assms(1-3) by (rule bexp_eqI)
  then have u: "ulp v = 2 powr (of_int e - 52)"
    by (simp add: ulp_def)
  have h: "2 powr (of_int e - 53) = ulp v / 2"
    unfolding u using powr_add [of "2::real" "of_int e - 53" 1] by simp
  from assms(1) have nz: "v \<noteq> 0"
    using powr_gt_zero [of 2 "of_int e"] by auto
  have "v / ulp v - of_int m = (v - of_int m * ulp v) / ulp v"
    using ulp_pos [of v] by (simp add: field_simps del: ulp_pos)
  then have "\<bar>v / ulp v - of_int m\<bar> = \<bar>v - of_int m * ulp v\<bar> / ulp v"
    using ulp_pos [of v] by (simp add: less_imp_le del: ulp_pos)
  also have "\<dots> < (ulp v / 2) / ulp v"
    using assms(4) ulp_pos [of v] unfolding h u [symmetric]
    by (intro divide_strict_right_mono)
  also have "\<dots> = 1 / 2"
    using ulp_pos [of v] by (simp del: ulp_pos)
  finally have "round_half_even (v / ulp v) = m"
    by (rule round_half_even_near)
  with nz show ?thesis
    by (simp add: round64_def u)
qed

lemma round64_exact:
  assumes "\<bar>m\<bar> < 2 ^ 53" "- 1074 \<le> j"
  shows "round64 (real_of_int m * 2 powr of_int j) = real_of_int m * 2 powr of_int j"
proof (cases "m = 0")
  case True
  then show ?thesis by (simp add: round64_def)
next
  case False
  let ?v = "real_of_int m * 2 powr of_int j"
  have nz: "?v \<noteq> 0"
    using False by simp
  have a: "\<bar>?v\<bar> = of_int \<bar>m\<bar> * 2 powr of_int j"
    by (simp add: abs_mult)
  have "of_int \<bar>m\<bar> < (2::real) ^ 53"
    using assms(1) by (metis of_int_less_iff of_int_numeral of_int_power)
  then have "\<bar>?v\<bar> < 2 ^ 53 * 2 powr of_int j"
    unfolding a by (intro mult_strict_right_mono) simp_all
  also have "\<dots> = 2 powr (of_int j + 53)"
    by (simp add: powr_add)
  finally have lt: "\<bar>?v\<bar> < 2 powr (of_int (j + 52) + 1)"
    by (simp add: add.commute)
  have "0 < \<bar>?v\<bar>"
    using nz by simp
  then have "log 2 \<bar>?v\<bar> < of_int (j + 52) + 1"
    using lt by (simp add: log_less_iff)
  then have "\<lfloor>log 2 \<bar>?v\<bar>\<rfloor> \<le> j + 52"
    by linarith
  with assms(2) have e: "bexp ?v \<le> j + 52"
    by (simp add: bexp_def)
  define d where "d = nat (j + 52 - bexp ?v)"
  have d: "of_int j - (of_int (bexp ?v) - 52) = real d"
    using e by (simp add: d_def)
  have "?v / ulp ?v = of_int m * 2 powr (of_int j - (of_int (bexp ?v) - 52))"
    by (simp add: ulp_def powr_diff)
  also have "\<dots> = of_int (m * 2 ^ d)"
    unfolding d by (simp add: powr_realpow)
  finally have "round_half_even (?v / ulp ?v) = round_half_even (of_int (m * 2 ^ d))"
    by (rule arg_cong)
  then have r: "round_half_even (?v / ulp ?v) = m * 2 ^ d"
    by (simp only: round_half_even_of_int)
  have "of_int (m * 2 ^ d) * ulp ?v = of_int m * (2 powr real d * 2 powr (of_int (bexp ?v) - 52))"
    by (simp add: ulp_def powr_realpow)
  also have "\<dots> = ?v"
    unfolding powr_add [symmetric] d [symmetric] by simp
  finally show ?thesis
    using nz by (simp add: round64_def r del: of_int_mult)
qed


lemma round64_is_float: "is_float v \<Longrightarrow> round64 v = v"
  by (auto simp add: is_float_def round64_exact)

lemma is_float_times_4: "is_float v \<Longrightarrow> is_float (v * 4)"
proof -
  assume "is_float v"
  then obtain m j where v: "v = of_int m * 2 powr of_int j" "\<bar>m\<bar> < 2 ^ 53" "- 1074 \<le> j"
    by (auto simp add: is_float_def)
  have "v * 4 = of_int m * 2 powr of_int (j + 2)"
    unfolding v(1) by (simp add: powr_add)
  with v(2,3) show ?thesis
    unfolding is_float_def by (intro exI [of _ m] exI [of _ "j + 2"]) simp
qed

lemma is_float_of_int: "\<bar>k\<bar> < 2 ^ 53 \<Longrightarrow> is_float (of_int k)"
  unfolding is_float_def by (intro exI [of _ k] exI [of _ 0]) simp

lemma bexp_upper:
  assumes "v \<noteq> 0"
  shows "\<bar>v\<bar> < 2 powr (of_int (bexp v) + 1)"
proof -
  have "log 2 \<bar>v\<bar> < of_int \<lfloor>log 2 \<bar>v\<bar>\<rfloor> + 1"
    by linarith
  also have "\<dots> \<le> of_int (bexp v) + 1"
    by (simp add: bexp_def)
  finally show ?thesis
    using assms by (simp add: log_less_iff)
qed

lemma bexp_le:
  assumes "v \<noteq> 0" "\<bar>v\<bar> < 2 powr (of_int e + 1)" "- 1022 \<le> e"
  shows "bexp v \<le> e"
proof -
  have "log 2 \<bar>v\<bar> < of_int e + 1"
    using assms(1,2) by (simp add: log_less_iff)
  then have "\<lfloor>log 2 \<bar>v\<bar>\<rfloor> \<le> e"
    by linarith
  with assms(3) show ?thesis
    by (simp add: bexp_def)
qed

lemma bexp_ge_min: "- 1022 \<le> bexp v"
  by (simp add: bexp_def)

lemma bexp_lower:
  assumes "2 powr (- 1022) \<le> \<bar>v\<bar>"
  shows "2 powr of_int (bexp v) \<le> \<bar>v\<bar>"
proof -
  have p: "0 < \<bar>v\<bar>"
    using assms powr_gt_zero [of 2 "- 1022"] by linarith
  have "of_int \<lfloor>log 2 \<bar>v\<bar>\<rfloor> \<le> log 2 \<bar>v\<bar>"
    by linarith
  then have a: "2 powr of_int \<lfloor>log 2 \<bar>v\<bar>\<rfloor> \<le> \<bar>v\<bar>"
    using p le_log_iff [of 2 "\<bar>v\<bar>" "of_int \<lfloor>log 2 \<bar>v\<bar>\<rfloor>"] by simp
  show ?thesis
  proof (cases "\<lfloor>log 2 \<bar>v\<bar>\<rfloor> \<le> - 1022")
    case True
    then have "bexp v = - 1022"
      by (simp add: bexp_def)
    with assms show ?thesis by simp
  next
    case False
    then have "bexp v = \<lfloor>log 2 \<bar>v\<bar>\<rfloor>"
      by (simp add: bexp_def)
    with a show ?thesis by simp
  qed
qed

lemma round_half_even_le_int: "v \<le> of_int N \<Longrightarrow> round_half_even v \<le> N"
  using round_half_even_error [of v] by linarith

lemma round_half_even_ge_int: "of_int N \<le> v \<Longrightarrow> N \<le> round_half_even v"
  using round_half_even_error [of v] by linarith

lemma ulp_inverse_int:
  assumes "v \<noteq> 0" "\<bar>v\<bar> < 2 ^ 53"
  shows "1 / ulp v = 2 ^ nat (52 - bexp v)" "bexp v \<le> 52"
proof -
  have "\<bar>v\<bar> < 2 powr (of_int 52 + 1)"
    using assms(2) by simp
  with assms(1) show e: "bexp v \<le> 52"
    by (intro bexp_le) simp_all
  have "1 / ulp v = 2 powr (52 - of_int (bexp v))"
    by (simp add: ulp_def powr_diff)
  also have "52 - of_int (bexp v) = real (nat (52 - bexp v))"
    using e by simp
  finally show "1 / ulp v = 2 ^ nat (52 - bexp v)"
    by (simp only: powr_realpow [of 2, simplified])
qed

lemma round64_le_int:
  assumes "\<bar>v\<bar> < 2 ^ 53" "v \<le> of_int N"
  shows "round64 v \<le> of_int N"
proof (cases "v = 0")
  case True
  with assms(2) show ?thesis by (simp add: round64_def)
next
  case False
  note u = ulp_inverse_int [OF False assms(1)]
  define d where "d = nat (52 - bexp v)"
  have i: "ulp v * 2 ^ d = 1"
    using u(1) ulp_pos [of v] unfolding d_def by (simp add: field_simps del: ulp_pos)
  have "v / ulp v = v * (1 / ulp v)"
    by simp
  also have "\<dots> = v * 2 ^ d"
    unfolding u(1) d_def by (rule refl)
  also have "\<dots> \<le> of_int N * 2 ^ d"
    using assms(2) by (intro mult_right_mono) simp_all
  also have "\<dots> = of_int (N * 2 ^ d)"
    by simp
  finally have "round_half_even (v / ulp v) \<le> N * 2 ^ d"
    by (rule round_half_even_le_int)
  then have "real_of_int (round_half_even (v / ulp v)) \<le> of_int (N * 2 ^ d)"
    by (simp only: of_int_le_iff)
  then have "of_int (round_half_even (v / ulp v)) * ulp v \<le> of_int (N * 2 ^ d) * ulp v"
    using ulp_pos [of v] by (intro mult_right_mono) (simp_all add: less_imp_le del: ulp_pos)
  also have "\<dots> = of_int N * (ulp v * 2 ^ d)"
    by simp
  finally show ?thesis
    using False unfolding i by (simp add: round64_def)
qed

lemma round64_ge_int:
  assumes "\<bar>v\<bar> < 2 ^ 53" "of_int N \<le> v"
  shows "of_int N \<le> round64 v"
proof -
  have "round64 (- v) \<le> of_int (- N)"
    using assms by (intro round64_le_int) simp_all
  then show ?thesis
    by (simp add: round64_minus)
qed

lemma round64_abs_le_int:
  assumes "\<bar>v\<bar> \<le> of_int N" "N < 2 ^ 53"
  shows "\<bar>round64 v\<bar> \<le> of_int N"
proof -
  have "real_of_int N < 2 ^ 53"
    using assms(2) by (metis of_int_less_iff of_int_numeral of_int_power)
  with assms(1) have b: "\<bar>v\<bar> < 2 ^ 53"
    by linarith
  have "round64 v \<le> of_int N"
    using b assms(1) by (intro round64_le_int) linarith+
  moreover have "of_int (- N) \<le> round64 v"
    using b assms(1) by (intro round64_ge_int) simp_all
  ultimately show ?thesis
    by simp
qed

lemma is_float_round64: "is_float (round64 v)"
proof (cases "v = 0")
  case True
  have "is_float (of_int 0)"
    by (rule is_float_of_int) simp
  with True show ?thesis
    by (simp add: round64_def)
next
  case False
  define M where "M = round_half_even (v / ulp v)"
  have r: "round64 v = of_int M * 2 powr of_int (bexp v - 52)"
    using False by (simp add: round64_def M_def ulp_def)
  have "\<bar>v\<bar> / ulp v < 2 powr (of_int (bexp v) + 1) / ulp v"
    using bexp_upper [OF False] ulp_pos [of v] by (intro divide_strict_right_mono)
  also have "\<dots> = 2 powr 53"
    unfolding ulp_def powr_diff [symmetric] by simp
  finally have "\<bar>v / ulp v\<bar> < 2 ^ 53"
    using ulp_pos [of v] by (simp add: less_imp_le del: ulp_pos)
  moreover have "\<bar>real_of_int M - v / ulp v\<bar> \<le> 1 / 2"
    unfolding M_def by (rule round_half_even_error)
  ultimately have "\<bar>real_of_int M\<bar> < 2 ^ 53 + 1"
    by linarith
  then have "real_of_int \<bar>M\<bar> < of_int (2 ^ 53 + 1)"
    by simp
  then have m: "\<bar>M\<bar> \<le> 2 ^ 53"
    unfolding of_int_less_iff by simp
  show ?thesis
  proof (cases "\<bar>M\<bar> < 2 ^ 53")
    case True
    with r bexp_ge_min [of v] show ?thesis
      unfolding is_float_def by (intro exI [of _ M] exI [of _ "bexp v - 52"]) simp
  next
    case False
    with m have "M = 2 ^ 53 \<or> M = - (2 ^ 53)"
      by linarith
    then have "M = 2 * (M div 2)" "\<bar>M div 2\<bar> < 2 ^ 53"
      by auto
    then have "of_int M = real_of_int (M div 2) * 2"
      by linarith
    moreover have "(2::real) powr real_of_int (bexp v - 51) = 2 * 2 powr real_of_int (bexp v - 52)"
      using powr_add [of "2::real" 1 "real_of_int (bexp v - 52)"] by (simp add: algebra_simps)
    ultimately have "round64 v = of_int (M div 2) * 2 powr of_int (bexp v - 51)"
      unfolding r by simp
    with \<open>\<bar>M div 2\<bar> < 2 ^ 53\<close> bexp_ge_min [of v] show ?thesis
      unfolding is_float_def by (intro exI [of _ "M div 2"] exI [of _ "bexp v - 51"]) simp
  qed
qed

lemma is_float_div_4:
  assumes "is_float v" "2 powr (- 1000) \<le> \<bar>v\<bar>"
  shows "is_float (v / 4)"
proof -
  from assms(1) obtain m j where v: "v = of_int m * 2 powr of_int j" "\<bar>m\<bar> < 2 ^ 53" "- 1074 \<le> j"
    by (auto simp add: is_float_def)
  have "real_of_int \<bar>m\<bar> < 2 ^ 53"
    using v(2) by (metis of_int_less_iff of_int_numeral of_int_power)
  then have "\<bar>v\<bar> < 2 ^ 53 * 2 powr of_int j"
    unfolding v(1) abs_mult by (simp add: abs_mult)
  also have "\<dots> = 2 powr (of_int j + 53)"
    by (simp add: powr_add)
  finally have "(2::real) powr (- 1000) < 2 powr (of_int j + 53)"
    using assms(2) by linarith
  then have "- 1000 < real_of_int j + 53"
    by simp
  then have j: "- 1072 \<le> j"
    by linarith
  have "v / 4 = of_int m * 2 powr of_int (j - 2)"
    unfolding v(1) by (simp add: powr_diff)
  with v(2) j show ?thesis
    unfolding is_float_def by (intro exI [of _ m] exI [of _ "j - 2"]) simp
qed

lemma powr_int_diff: "2 powr real_of_int (int t - int c) = 2 ^ t / 2 ^ c"
proof -
  have "2 powr real_of_int (int t - int c) = 2 powr (real t - real c)"
    by simp
  also have "\<dots> = 2 powr real t / 2 powr real c"
    by (rule powr_diff)
  finally show ?thesis
    by (simp add: powr_realpow)
qed

lemma binade_pow:
  assumes "2 ^ t \<le> \<bar>v\<bar> * 2 ^ c" "\<bar>v\<bar> * 2 ^ c < 2 ^ Suc t" "- 1022 \<le> int t - int c"
  shows "bexp v = int t - int c" "ulp v = 2 ^ t / (2 ^ c * 2 ^ 52)"
proof -
  have a: "2 powr real_of_int (int t - int c) \<le> \<bar>v\<bar>"
    unfolding powr_int_diff using assms(1) by (simp add: field_simps)
  have "2 powr (real_of_int (int t - int c) + 1) = 2 powr real_of_int (int t - int c) * 2 powr 1"
    by (rule powr_add)
  then have s: "2 powr (real_of_int (int t - int c) + 1) = 2 ^ Suc t / 2 ^ c"
    unfolding powr_int_diff by simp
  have b: "\<bar>v\<bar> < 2 powr (real_of_int (int t - int c) + 1)"
    unfolding s using assms(2) by (simp add: pos_less_divide_eq)
  show e: "bexp v = int t - int c"
    using a b assms(3) by (rule bexp_eqI)
  have "ulp v = 2 powr real_of_int (int t - int c) / 2 powr 52"
    unfolding ulp_def e by (rule powr_diff)
  then show "ulp v = 2 ^ t / (2 ^ c * 2 ^ 52)"
    unfolding powr_int_diff by simp
qed

lemma round64_near_pow:
  assumes "2 ^ t \<le> \<bar>v\<bar> * 2 ^ c" "\<bar>v\<bar> * 2 ^ c < 2 ^ Suc t" "- 1022 \<le> int t - int c"
    and "\<bar>v * 2 ^ c * 2 ^ 52 - of_int m * 2 ^ t\<bar> < 2 ^ t / 2"
  shows "round64 v = of_int m * 2 ^ t / (2 ^ c * 2 ^ 52)"
proof -
  note b = binade_pow [OF assms(1-3)]
  have nz: "v \<noteq> 0"
  proof
    assume "v = 0"
    with assms(1) have "(2::real) ^ t \<le> 0"
      by simp
    moreover have "(0::real) < 2 ^ t"
      by simp
    ultimately show False
      by linarith
  qed
  have "v / ulp v - of_int m = (v * 2 ^ c * 2 ^ 52 - of_int m * 2 ^ t) / 2 ^ t"
    unfolding b(2) by (simp add: field_simps)
  then have "\<bar>v / ulp v - of_int m\<bar> = \<bar>v * 2 ^ c * 2 ^ 52 - of_int m * 2 ^ t\<bar> / 2 ^ t"
    by simp
  also have "\<dots> < (2 ^ t / 2) / 2 ^ t"
    using assms(4) by (intro divide_strict_right_mono) simp_all
  also have "\<dots> = 1 / 2"
    by simp
  finally have "round_half_even (v / ulp v) = m"
    by (rule round_half_even_near)
  with nz show ?thesis
    unfolding round64_def b(2) by simp
qed

lemma round64_error_pow:
  assumes "2 ^ t \<le> \<bar>v\<bar> * 2 ^ c" "\<bar>v\<bar> * 2 ^ c < 2 ^ Suc t" "- 1022 \<le> int t - int c"
  shows "\<bar>round64 v - v\<bar> * (2 ^ c * 2 ^ 53) \<le> 2 ^ t"
proof -
  note b = binade_pow [OF assms]
  have "\<bar>round64 v - v\<bar> \<le> 2 ^ t / (2 ^ c * 2 ^ 52) / 2"
    using round64_error [of v] unfolding b(2) .
  then have "\<bar>round64 v - v\<bar> * (2 ^ c * 2 ^ 53) \<le> 2 ^ t / (2 ^ c * 2 ^ 52) / 2 * (2 ^ c * 2 ^ 53)"
    by (intro mult_right_mono) simp_all
  then show ?thesis
    by simp
qed

lemma int_binade:
  assumes "1 \<le> (k::int)"
  shows "\<exists>t. 2 ^ t \<le> k \<and> k < 2 ^ Suc t"
proof -
  define t where "t = nat \<lfloor>log 2 (real_of_int k)\<rfloor>"
  have p: "0 < real_of_int k" "1 \<le> real_of_int k"
    using assms by simp_all
  then have "0 \<le> log 2 (real_of_int k)"
    by simp
  then have f: "real t = of_int \<lfloor>log 2 (real_of_int k)\<rfloor>"
    by (simp add: t_def)
  have "real t \<le> log 2 (real_of_int k)" "log 2 (real_of_int k) < real t + 1"
    unfolding f by linarith+
  then have "2 powr real t \<le> real_of_int k" "real_of_int k < 2 powr (real t + 1)"
    using p(1) le_log_iff [of 2 "real_of_int k" "real t"] log_less_iff [of 2 "real_of_int k" "real t + 1"]
    by simp_all
  then have "real_of_int (2 ^ t) \<le> real_of_int k" "real_of_int k < real_of_int (2 ^ Suc t)"
    by (simp_all add: powr_realpow powr_add)
  then have "2 ^ t \<le> k \<and> k < 2 ^ Suc t"
    unfolding of_int_le_iff of_int_less_iff by simp
  then show ?thesis ..
qed

lemma reencode_pow2:
  assumes "t \<le> 15"
  shows "round64 (round64 (2 ^ t / 32767) * 32767) = 2 ^ t"
proof -
  define T :: real where "T = 2 ^ t"
  have T: "0 < T"
    by (simp add: T_def)
  have s: "(2::real) ^ Suc t = 2 * T"
    by (simp add: T_def)
  have e: "- 1022 \<le> int t - int 15" "- 1022 \<le> int t - int 1"
    by simp_all
  have "round64 (T / 32767) = of_int 4503737070518400 * 2 ^ t / (2 ^ 15 * 2 ^ 52)"
  proof (rule round64_near_pow [OF _ _ e(1)])
    show "2 ^ t \<le> \<bar>T / 32767\<bar> * 2 ^ 15"
      unfolding T_def [symmetric] using T by simp
    show "\<bar>T / 32767\<bar> * 2 ^ 15 < 2 ^ Suc t"
      unfolding s using T by simp
    show "\<bar>T / 32767 * 2 ^ 15 * 2 ^ 52 - of_int 4503737070518400 * 2 ^ t\<bar> < 2 ^ t / 2"
      unfolding T_def [symmetric] using T by (simp add: abs_if field_simps)
  qed
  then have q: "round64 (T / 32767) * 32767 = T * (147573952589676412800 / 147573952589676412928)"
    unfolding T_def by simp
  define P where "P = T * (147573952589676412800 / 147573952589676412928)"
  have P: "0 < P" "P * 147573952589676412928 = T * 147573952589676412800"
    using T by (simp_all add: P_def)
  have "round64 P = of_int 9007199254740992 * 2 ^ t / (2 ^ 1 * 2 ^ 52)"
  proof (rule round64_near_pow [OF _ _ e(2)])
    show "2 ^ t \<le> \<bar>P\<bar> * 2 ^ 1"
      unfolding T_def [symmetric] using T P by (simp add: abs_if)
    show "\<bar>P\<bar> * 2 ^ 1 < 2 ^ Suc t"
      unfolding s using T P by (simp add: abs_if)
    show "\<bar>P * 2 ^ 1 * 2 ^ 52 - of_int 9007199254740992 * 2 ^ t\<bar> < 2 ^ t / 2"
      unfolding T_def [symmetric] using T P by (simp add: abs_if)
  qed
  then have "round64 P = T"
    by (simp add: T_def)
  then show ?thesis
    unfolding T_def [symmetric] q P_def .
qed

lemma reencode_generic:
  assumes "2 ^ t < k" "k < 2 ^ Suc t" "k < 32767"
  shows "round64 (round64 (of_int k / 32767) * 32767) = of_int k"
proof -
  define T :: real where "T = 2 ^ t"
  define K :: real where "K = of_int k"
  have "(2::int) ^ t < 2 ^ 15"
    using assms(1,3) by simp
  then have t: "t < 15"
    by (intro power_less_imp_less_exp [of "2::int"]) simp_all
  then have "(2::real) ^ t \<le> 2 ^ 14"
    by (intro power_increasing) simp_all
  then have T: "0 < T" "T \<le> 16384"
    by (simp_all add: T_def)
  have s: "(2::real) ^ Suc t = 2 * T"
    by (simp add: T_def)
  have "2 ^ t + 1 \<le> k" "k + 1 \<le> 2 ^ Suc t" "k \<le> 32766"
    using assms by simp_all
  then have "real_of_int (2 ^ t + 1) \<le> of_int k" "real_of_int (k + 1) \<le> of_int (2 ^ Suc t)"
    "real_of_int k \<le> of_int 32766"
    unfolding of_int_le_iff by simp_all
  then have K: "T + 1 \<le> K" "K + 1 \<le> 2 * T" "K \<le> 32766"
    by (simp_all add: T_def K_def)
  have e: "- 1022 \<le> int t - int 15" "- 1022 \<le> int t - int 0"
    by simp_all
  define q where "q = round64 (K / 32767)"
  define P where "P = q * 32767"
  have "\<bar>round64 (K / 32767) - K / 32767\<bar> * (2 ^ 15 * 2 ^ 53) \<le> 2 ^ t"
  proof (rule round64_error_pow [OF _ _ e(1)])
    show "2 ^ t \<le> \<bar>K / 32767\<bar> * 2 ^ 15"
      unfolding T_def [symmetric] using T K by (simp add: abs_if)
    show "\<bar>K / 32767\<bar> * 2 ^ 15 < 2 ^ Suc t"
      unfolding s using T K by (simp add: abs_if)
  qed
  then have "\<bar>q - K / 32767\<bar> * 295147905179352825856 \<le> T"
    by (simp add: q_def T_def)
  moreover have "\<bar>P - K\<bar> = \<bar>q - K / 32767\<bar> * 32767"
    unfolding P_def by (simp add: abs_if)
  ultimately have D: "\<bar>P - K\<bar> * 295147905179352825856 \<le> T * 32767"
    by simp
  have m: "real_of_int (k * 2 ^ (52 - t)) * 2 ^ t = K * 2 ^ 52"
  proof -
    have "real_of_int (k * 2 ^ (52 - t)) * 2 ^ t = K * (2 ^ (52 - t) * 2 ^ t)"
      by (simp add: K_def)
    also have "(2::real) ^ (52 - t) * 2 ^ t = 2 ^ (52 - t + t)"
      by (rule power_add [symmetric])
    also have "52 - t + t = 52"
      using t by simp
    finally show ?thesis .
  qed
  have "round64 P = of_int (k * 2 ^ (52 - t)) * 2 ^ t / (2 ^ 0 * 2 ^ 52)"
  proof (rule round64_near_pow [OF _ _ e(2)])
    show "2 ^ t \<le> \<bar>P\<bar> * 2 ^ 0"
      unfolding T_def [symmetric] using T K D by (simp add: abs_if split: if_splits)
    show "\<bar>P\<bar> * 2 ^ 0 < 2 ^ Suc t"
      unfolding s using T K D by (simp add: abs_if split: if_splits)
    show "\<bar>P * 2 ^ 0 * 2 ^ 52 - of_int (k * 2 ^ (52 - t)) * 2 ^ t\<bar> < 2 ^ t / 2"
      unfolding m unfolding T_def [symmetric] using T K D by (simp add: abs_if split: if_splits)
  qed
  then have "round64 P = K"
    unfolding m by simp
  then show ?thesis
    unfolding P_def q_def K_def .
qed

lemma reencode_pos:
  assumes "1 \<le> k" "k \<le> 32768"
  shows "round64 (round64 (of_int k / 32767) * 32767) = of_int k"
proof -
  from int_binade [OF assms(1)] obtain t where t: "2 ^ t \<le> k" "k < 2 ^ Suc t"
    by blast
  have "k \<noteq> 2 ^ t \<Longrightarrow> k \<noteq> 32768"
  proof
    assume "k \<noteq> 2 ^ t" "k = 32768"
    with t have a: "(2::int) ^ t < 2 ^ 15" and b: "(2::int) ^ 15 < 2 ^ Suc t"
      by simp_all
    from a have "t < 15"
      by (intro power_less_imp_less_exp [of "2::int"]) simp_all
    moreover from b have "15 < Suc t"
      by (intro power_less_imp_less_exp [of "2::int"]) simp_all
    ultimately show False
      by simp
  qed
  then consider "k = 2 ^ t" | "k = 32767" | "2 ^ t < k" "k < 32767"
    using t(1) assms(2) by fastforce
  then show ?thesis
  proof cases
    case 1
    have "(2::int) ^ t < 2 ^ 16"
      using 1 assms(2) by simp
    then have "t < 16"
      by (intro power_less_imp_less_exp [of "2::int"]) simp_all
    then have "round64 (round64 (2 ^ t / 32767) * 32767) = 2 ^ t"
      by (intro reencode_pow2) simp
    then show ?thesis
      unfolding 1 by simp
  next
    case 2
    have "round64 (real_of_int 1) = of_int 1" "round64 (real_of_int 32767) = of_int 32767"
      by (intro round64_is_float is_float_of_int; simp)+
    then show ?thesis
      unfolding 2 by simp
  next
    case 3
    then show ?thesis
      using t(2) by (intro reencode_generic [of t])
  qed
qed

lemma reencode:
  assumes "- 32768 \<le> k" "k \<le> 32767"
  shows "round64 (round64 (of_int k / 32767) * 32767) = of_int k"
proof -
  consider "k = 0" | "1 \<le> k" | "1 \<le> - k"
    by linarith
  then show ?thesis
  proof cases
    case 1
    then show ?thesis by (simp add: round64_def)
  next
    case 2
    with assms(2) show ?thesis by (intro reencode_pos) simp_all
  next
    case 3
    with assms(1) have "round64 (round64 (of_int (- k) / 32767) * 32767) = of_int (- k)"
      by (intro reencode_pos) simp_all
    then have "round64 (- (round64 (of_int k / 32767) * 32767)) = - of_int k"
      by (simp add: round64_minus)
    then show ?thesis
      by (simp add: round64_minus)
  qed
qed

lemma py_int_minus: "py_int (- v) = - py_int v"
  by (auto simp add: py_int_def ceiling_def)

lemma ulp_le:
  assumes "v \<noteq> 0" "\<bar>v\<bar> * 2 ^ c < 2 ^ Suc t" "- 1022 \<le> int t - int c"
  shows "ulp v \<le> 2 ^ t / (2 ^ c * 2 ^ 52)"
proof -
  have "2 powr (real_of_int (int t - int c) + 1) = 2 powr real_of_int (int t - int c) * 2 powr 1"
    by (rule powr_add)
  then have s: "2 powr (real_of_int (int t - int c) + 1) = 2 ^ Suc t / 2 ^ c"
    unfolding powr_int_diff by simp
  have "\<bar>v\<bar> < 2 powr (real_of_int (int t - int c) + 1)"
    unfolding s using assms(2) by (simp add: pos_less_divide_eq)
  with assms(1) have "bexp v \<le> int t - int c"
    using assms(3) by (intro bexp_le)
  then have "ulp v \<le> 2 powr (real_of_int (int t - int c) - 52)"
    unfolding ulp_def by (intro powr_mono) simp_all
  also have "\<dots> = 2 powr real_of_int (int t - int c) / 2 powr 52"
    by (rule powr_diff)
  finally show ?thesis
    unfolding powr_int_diff by simp
qed

lemma real_binade:
  assumes "1 \<le> (P::real)"
  shows "\<exists>t. 2 ^ t \<le> P \<and> P < 2 ^ Suc t"
proof -
  define t where "t = nat \<lfloor>log 2 P\<rfloor>"
  have p: "0 < P"
    using assms by simp
  have "0 \<le> log 2 P"
    using assms by simp
  then have f: "real t = of_int \<lfloor>log 2 P\<rfloor>"
    by (simp add: t_def)
  have "real t \<le> log 2 P" "log 2 P < real t + 1"
    unfolding f by linarith+
  then have "2 powr real t \<le> P" "P < 2 powr (real t + 1)"
    using p le_log_iff [of 2 P "real t"] log_less_iff [of 2 P "real t + 1"]
    by simp_all
  then have "2 ^ t \<le> P \<and> P < 2 ^ Suc t"
    by (simp add: powr_realpow powr_add)
  then show ?thesis ..
qed

lemma floor_round64_bounds:
  assumes "0 < P" "P < 2 ^ 53"
  shows "of_int \<lfloor>round64 P\<rfloor> - ulp P / 2 \<le> P" "P \<le> of_int \<lfloor>round64 P\<rfloor> + 1 - ulp P / 2"
proof -
  have nz: "P \<noteq> 0" and b: "\<bar>P\<bar> < 2 ^ 53"
    using assms by simp_all
  note u = ulp_inverse_int [OF nz b]
  define d where "d = nat (52 - bexp P)"
  define M where "M = round_half_even (P / ulp P)"
  define k where "k = \<lfloor>round64 P\<rfloor>"
  have i: "ulp P * 2 ^ d = 1"
    using u(1) ulp_pos [of P] unfolding d_def by (simp add: field_simps del: ulp_pos)
  have y: "round64 P = of_int M * ulp P"
    using nz by (simp add: round64_def M_def)
  have e: "\<bar>round64 P - P\<bar> \<le> ulp P / 2"
    by (rule round64_error)
  have "of_int k \<le> round64 P"
    unfolding k_def by (rule of_int_floor_le)
  with e show "of_int \<lfloor>round64 P\<rfloor> - ulp P / 2 \<le> P"
    unfolding k_def by linarith
  have "round64 P < of_int k + 1"
    unfolding k_def by linarith
  then have "round64 P * 2 ^ d < (of_int k + 1) * 2 ^ d"
    by (intro mult_strict_right_mono) simp_all
  moreover have "round64 P * 2 ^ d = of_int M"
    unfolding y using i by (simp add: mult.assoc)
  ultimately have "real_of_int M < of_int ((k + 1) * 2 ^ d)"
    by simp
  then have "M < (k + 1) * 2 ^ d"
    by (simp only: of_int_less_iff)
  then have "M + 1 \<le> (k + 1) * 2 ^ d"
    by simp
  then have "real_of_int (M + 1) \<le> of_int ((k + 1) * 2 ^ d)"
    by (simp only: of_int_le_iff)
  then have "(of_int M + 1) * ulp P \<le> (of_int k + 1) * 2 ^ d * ulp P"
    using ulp_pos [of P] by (intro mult_right_mono) (simp_all add: less_imp_le del: ulp_pos)
  also have "\<dots> = (of_int k + 1) * (ulp P * 2 ^ d)"
    by simp
  finally have "round64 P + ulp P \<le> of_int k + 1"
    unfolding i y by (simp add: algebra_simps)
  with e show "P \<le> of_int \<lfloor>round64 P\<rfloor> + 1 - ulp P / 2"
    unfolding k_def by linarith
qed

lemma decode_error_pos:
  assumes "0 \<le> P" "P \<le> 32767"
  shows "\<bar>P / 32767 - round64 (of_int \<lfloor>round64 P\<rfloor> / 32767)\<bar> \<le> 1 / 32767"
    and "0 \<le> \<lfloor>round64 P\<rfloor>" and "\<lfloor>round64 P\<rfloor> \<le> 32767"
proof -
  define k where "k = \<lfloor>round64 P\<rfloor>"
  define K :: real where "K = of_int k"
  define q where "q = round64 (K / 32767)"
  have b: "\<bar>P\<bar> < 2 ^ 53"
    using assms by simp
  have "of_int 0 \<le> round64 P"
    using assms b by (intro round64_ge_int) simp_all
  moreover have "round64 P \<le> of_int 32767"
    using assms b by (intro round64_le_int) simp_all
  ultimately have r: "0 \<le> k" "k \<le> 32767"
    unfolding k_def by (simp_all add: le_floor_iff floor_le_iff)
  then show "0 \<le> \<lfloor>round64 P\<rfloor>" "\<lfloor>round64 P\<rfloor> \<le> 32767"
    unfolding k_def by simp_all
  have R: "0 \<le> K" "K \<le> 32767"
    using r unfolding K_def by simp_all
  have "\<bar>P / 32767 - q\<bar> \<le> 1 / 32767"
  proof (cases "P = 0")
    case True
    then show ?thesis
      by (simp add: q_def K_def k_def round64_def)
  next
    case False
    with assms(1) have p: "0 < P"
      by simp
    have B: "K - ulp P / 2 \<le> P" "P \<le> K + 1 - ulp P / 2"
      unfolding K_def k_def using p b by (simp_all only: floor_round64_bounds)
    have "\<bar>P\<bar> * 2 ^ 0 < 2 ^ Suc 14"
      using assms by simp
    with False have "ulp P \<le> 2 ^ 14 / (2 ^ 0 * 2 ^ 52)"
      by (intro ulp_le) simp_all
    then have U: "ulp P \<le> 16384 / 4503599627370496" "0 < ulp P"
      by simp_all
    show ?thesis
    proof (cases "k = 0")
      case True
      then have "q = 0"
        by (simp add: q_def K_def round64_def)
      moreover have "K = 0"
        using True by (simp add: K_def)
      ultimately show ?thesis
        using B ulp_pos [of P] p by (simp add: abs_if del: ulp_pos)
    next
      case False
      with r have k1: "1 \<le> k"
        by simp
      then have K1: "1 \<le> K"
        unfolding K_def by simp
      then have Knz: "K / 32767 \<noteq> 0"
        by simp
      have E: "\<bar>q - K / 32767\<bar> \<le> ulp (K / 32767) / 2"
        unfolding q_def by (rule round64_error)
      show ?thesis
      proof (cases "P \<le> K")
        case True
        have "\<bar>K / 32767\<bar> * 2 ^ 0 < 2 ^ Suc 0"
          using R by simp
        with Knz have "ulp (K / 32767) \<le> 2 ^ 0 / (2 ^ 0 * 2 ^ 52)"
          by (intro ulp_le) simp_all
        then have "ulp (K / 32767) \<le> 1 / 4503599627370496"
          by simp
        with E True B U show ?thesis
          by (simp add: abs_if field_simps split: if_splits)
      next
        case False
        then have PK: "K < P"
          by simp
        with K1 have "1 \<le> P"
          by simp
        from real_binade [OF this] obtain t where t: "2 ^ t \<le> P" "P < 2 ^ Suc t"
          by blast
        define T :: real where "T = 2 ^ t"
        have "(2::real) ^ t < 2 ^ 15"
          using t(1) assms(2) by simp
        then have "t < 15"
          by (intro power_less_imp_less_exp [of "2::real"]) simp_all
        then have "(2::real) ^ t \<le> 2 ^ 14"
          by (intro power_increasing) simp_all
        then have T: "0 < T" "T \<le> 16384"
          by (simp_all add: T_def)
        have s: "(2::real) ^ Suc t = 2 * T"
          by (simp add: T_def)
        have "2 ^ t \<le> \<bar>P\<bar> * 2 ^ 0" "\<bar>P\<bar> * 2 ^ 0 < 2 ^ Suc t"
          using t p by simp_all
        then have "ulp P = 2 ^ t / (2 ^ 0 * 2 ^ 52)"
          by (intro binade_pow) simp_all
        then have u: "ulp P = T / 4503599627370496"
          by (simp add: T_def)
        have "real_of_int k < of_int (2 ^ Suc t)"
          using PK t(2) by (simp add: K_def)
        then have "k < 2 ^ Suc t"
          by (simp only: of_int_less_iff)
        then have "k + 1 \<le> 2 ^ Suc t"
          by simp
        then have "real_of_int (k + 1) \<le> of_int (2 ^ Suc t)"
          by (simp only: of_int_le_iff)
        then have K2: "K + 1 \<le> 2 * T"
          by (simp add: K_def T_def)
        have "real_of_int k < of_int 32767"
          using PK assms(2) by (simp add: K_def)
        then have "k < 32767"
          by (simp only: of_int_less_iff)
        then have "k \<le> 32766"
          by simp
        then have "real_of_int k \<le> of_int 32766"
          by (simp only: of_int_le_iff)
        then have K3: "K \<le> 32766"
          by (simp add: K_def)
        have "\<bar>K / 32767\<bar> * 2 ^ 15 < 2 ^ Suc t"
          unfolding s using K1 K2 K3 T by (simp add: abs_if)
        with Knz have "ulp (K / 32767) \<le> 2 ^ t / (2 ^ 15 * 2 ^ 52)"
          by (intro ulp_le) simp_all
        then have "ulp (K / 32767) \<le> T / 147573952589676412928"
          by (simp add: T_def)
        with E PK B(2) T show ?thesis
          unfolding u by (simp add: abs_if field_simps split: if_splits)
      qed
    qed
  qed
  then show "\<bar>P / 32767 - round64 (of_int \<lfloor>round64 P\<rfloor> / 32767)\<bar> \<le> 1 / 32767"
    unfolding q_def K_def k_def .
qed

lemma decode_error:
  assumes "\<bar>P\<bar> \<le> 32767"
  shows "\<bar>P / 32767 - round64 (of_int (py_int (round64 P)) / 32767)\<bar> \<le> 1 / 32767"
    and "- 32767 \<le> py_int (round64 P)" and "py_int (round64 P) \<le> 32767"
proof -
  have b: "\<bar>P\<bar> < 2 ^ 53"
    using assms by simp
  have "\<bar>P / 32767 - round64 (of_int (py_int (round64 P)) / 32767)\<bar> \<le> 1 / 32767 \<and>
        - 32767 \<le> py_int (round64 P) \<and> py_int (round64 P) \<le> 32767"
  proof (cases "0 \<le> P")
    case True
    then have "of_int 0 \<le> round64 P"
      using b by (intro round64_ge_int) simp_all
    then have "py_int (round64 P) = \<lfloor>round64 P\<rfloor>"
      by (simp add: py_int_def)
    with decode_error_pos [OF True] assms True show ?thesis
      by simp
  next
    case False
    then have n: "0 \<le> - P" "- P \<le> 32767"
      using assms by simp_all
    have "of_int 0 \<le> round64 (- P)"
      using b n by (intro round64_ge_int) simp_all
    then have "py_int (round64 (- P)) = \<lfloor>round64 (- P)\<rfloor>"
      by (simp add: py_int_def)
    then have c: "py_int (round64 P) = - \<lfloor>round64 (- P)\<rfloor>"
      using py_int_minus [of "round64 P"] by (simp add: round64_minus)
    note d = decode_error_pos [OF n]
    have "round64 (of_int (- \<lfloor>round64 (- P)\<rfloor>) / 32767) =
        - round64 (of_int \<lfloor>round64 (- P)\<rfloor> / 32767)"
      using round64_minus [of "of_int \<lfloor>round64 (- P)\<rfloor> / 32767"] by simp
    then have "P / 32767 - round64 (of_int (py_int (round64 P)) / 32767) =
        - (- P / 32767 - round64 (of_int \<lfloor>round64 (- P)\<rfloor> / 32767))"
      unfolding c by simp
    then have "\<bar>P / 32767 - round64 (of_int (py_int (round64 P)) / 32767)\<bar> =
        \<bar>- P / 32767 - round64 (of_int \<lfloor>round64 (- P)\<rfloor> / 32767)\<bar>"
      by (simp only: abs_minus_cancel)
    with d(1) have "\<bar>P / 32767 - round64 (of_int (py_int (round64 P)) / 32767)\<bar> \<le> 1 / 32767"
      by simp
    moreover have "- 32767 \<le> py_int (round64 P)" "py_int (round64 P) \<le> 32767"
      unfolding c using d(2,3) by linarith+
    ultimately show ?thesis
      by blast
  qed
  then show "\<bar>P / 32767 - round64 (of_int (py_int (round64 P)) / 32767)\<bar> \<le> 1 / 32767"
    and "- 32767 \<le> py_int (round64 P)" and "py_int (round64 P) \<le> 32767"
    by simp_all
qed

section \<open>Gene: the packed word\<close>

subsection \<open>Bit fields of the packed word\<close>


lemma and_7F: "(k::int) AND 0x7F = take_bit 7 k"
  using take_bit_eq_mask [of 7 k] by (simp add: mask_eq_exp_minus_1)

lemma and_FFFF: "(k::int) AND 0xFFFF = take_bit 16 k"
  using take_bit_eq_mask [of 16 k] by (simp add: mask_eq_exp_minus_1)

lemma and_1: "(k::int) AND 0x1 = take_bit 1 k"
  using take_bit_eq_mask [of 1 k] by (simp add: mask_eq_exp_minus_1)

lemma bit_pack5:
  "bit (pack5 a b c d w) n \<longleftrightarrow>
     (n < 16 \<and> bit w n) \<or> (16 \<le> n \<and> n < 23 \<and> bit d (n - 16)) \<or> (23 \<le> n \<and> bit c (n - 23)) \<or>
     (24 \<le> n \<and> n < 31 \<and> bit b (n - 24)) \<or> (31 \<le> n \<and> bit a (n - 31))"
  by (auto simp add: pack5_def bit_simps)

lemma pack5_low: "take_bit 16 (pack5 a b c d w) = take_bit 16 w"
  by (rule bit_eqI) (auto simp add: bit_pack5 bit_simps)

lemma kind_bits: "k = 0 \<or> k = 1 \<Longrightarrow> bit (k::int) n \<longleftrightarrow> (n = 0 \<and> k = 1)"
  by (auto simp add: bit_simps)

lemma pack5_sink_id: "c = 0 \<or> c = 1 \<Longrightarrow> take_bit 7 (drop_bit 16 (pack5 a b c d w)) = take_bit 7 d"
  by (rule bit_eqI) (auto simp add: bit_pack5 bit_simps kind_bits)

lemma pack5_sink_type: "c = 0 \<or> c = 1 \<Longrightarrow> take_bit 1 (drop_bit 23 (pack5 a b c d w)) = c"
  by (rule bit_eqI) (auto simp add: bit_pack5 bit_simps kind_bits even_drop_bit_iff_not_bit)

lemma pack5_source_id: "c = 0 \<or> c = 1 \<Longrightarrow> take_bit 7 (drop_bit 24 (pack5 a b c d w)) = take_bit 7 b"
  by (rule bit_eqI) (auto simp add: bit_pack5 bit_simps kind_bits)

lemma pack5_source_type: "c = 0 \<or> c = 1 \<Longrightarrow> drop_bit 31 (pack5 a b c d w) = a"
  by (rule bit_eqI) (auto simp add: bit_pack5 bit_simps kind_bits)

lemma to_int_pack5:
  "to_int g = pack5 (source_type g) (source_id g) (sink_type g) (sink_id g)
      (max (- 32768) (min 32767 (py_int (fmul (fdiv (weight g) 4.0) 32767))))"
  by (simp add: to_int_def pack5_def and_7F and_FFFF Let_def)

lemma bit_ranges:
  fixes n :: nat
  obtains "n < 16" | "16 \<le> n" "n < 23" | "n = 23" | "24 \<le> n" "n < 31" | "n = 31" | "32 \<le> n"
  by linarith

lemma pack5_concat:
  assumes "a = 0 \<or> a = 1" "c = 0 \<or> c = 1"
  shows "pack5 a b c d w = concat_bit 16 w (concat_bit 7 d (concat_bit 1 c (concat_bit 7 b a)))"
    (is "?l = ?r")
proof (rule bit_eqI)
  fix n :: nat
  show "bit ?l n = bit ?r n"
  proof (cases n rule: bit_ranges)
    case 1 then show ?thesis by (simp add: bit_pack5 bit_concat_bit_iff)
  next
    case 2 then show ?thesis using assms by (auto simp add: bit_pack5 bit_concat_bit_iff kind_bits)
  next
    case 3 then show ?thesis using assms by (auto simp add: bit_pack5 bit_concat_bit_iff kind_bits)
  next
    case 4 then show ?thesis using assms by (auto simp add: bit_pack5 bit_concat_bit_iff kind_bits)
  next
    case 5 then show ?thesis using assms by (auto simp add: bit_pack5 bit_concat_bit_iff kind_bits)
  next
    case 6 then show ?thesis using assms by (auto simp add: bit_pack5 bit_concat_bit_iff kind_bits)
  qed
qed

lemma take_bit_1_kind: "c = 0 \<or> c = 1 \<Longrightarrow> take_bit 1 (c::int) = c"
  by auto

lemma pack5_sum:
  assumes "a = 0 \<or> a = 1" "c = 0 \<or> c = 1"
  shows "pack5 a b c d w = a * 2 ^ 31 + take_bit 7 b * 2 ^ 24 + c * 2 ^ 23 + take_bit 7 d * 2 ^ 16 + take_bit 16 w"
proof -
  have t: "take_bit 1 c = c"
    using assms(2) by auto
  show ?thesis
    unfolding pack5_concat [OF assms] concat_bit_eq t push_bit_eq_mult
    by simp
qed

lemma pack5_unpack:
  assumes "0 \<le> p" "p < 2 ^ 32"
  shows "pack5 (take_bit 1 (drop_bit 31 p)) (take_bit 7 (drop_bit 24 p)) (take_bit 1 (drop_bit 23 p))
            (take_bit 7 (drop_bit 16 p)) (take_bit 16 p) = p"
proof -
  have p: "take_bit 32 p = p"
    using assms by (simp add: take_bit_int_eq_self)
  have b1: "bit (take_bit 1 k) m \<longleftrightarrow> m = 0 \<and> odd k" for k :: int and m
    by (auto simp add: bit_take_bit_iff bit_0)
  have "pack5 (take_bit 1 (drop_bit 31 p)) (take_bit 7 (drop_bit 24 p)) (take_bit 1 (drop_bit 23 p))
            (take_bit 7 (drop_bit 16 p)) (take_bit 16 p) = take_bit 32 p" (is "?l = ?r")
  proof (rule bit_eqI)
    fix n :: nat
    show "bit ?l n = bit ?r n"
    proof (cases n rule: bit_ranges)
      case 1 then show ?thesis by (auto simp add: bit_pack5 bit_take_bit_iff bit_drop_bit_eq b1 even_drop_bit_iff_not_bit)
    next
      case 2 then show ?thesis by (auto simp add: bit_pack5 bit_take_bit_iff bit_drop_bit_eq b1 even_drop_bit_iff_not_bit)
    next
      case 3 then show ?thesis by (auto simp add: bit_pack5 bit_take_bit_iff bit_drop_bit_eq b1 even_drop_bit_iff_not_bit)
    next
      case 4 then show ?thesis by (auto simp add: bit_pack5 bit_take_bit_iff bit_drop_bit_eq b1 even_drop_bit_iff_not_bit)
    next
      case 5 then show ?thesis by (auto simp add: bit_pack5 bit_take_bit_iff bit_drop_bit_eq b1 even_drop_bit_iff_not_bit)
    next
      case 6 then show ?thesis by (auto simp add: bit_pack5 bit_take_bit_iff bit_drop_bit_eq b1 even_drop_bit_iff_not_bit)
    qed
  qed
  with p show ?thesis by simp
qed

subsection \<open>The weight code\<close>

lemma py_int_of_int: "py_int (of_int k) = k"
  by (simp add: py_int_def)

lemma py_int_range:
  fixes b :: int
  assumes "- of_int b \<le> v" "v \<le> of_int b"
  shows "- b \<le> py_int v \<and> py_int v \<le> b"
proof (cases "0 \<le> v")
  case True
  then have "py_int v = \<lfloor>v\<rfloor>" by (simp add: py_int_def)
  moreover have "0 \<le> \<lfloor>v\<rfloor>" using True by simp
  moreover have "\<lfloor>v\<rfloor> \<le> b" using assms(2) by (simp add: floor_le_iff)
  moreover have "0 \<le> b" using True assms(2) by linarith
  ultimately show ?thesis by linarith
next
  case False
  then have "py_int v = \<lceil>v\<rceil>" by (simp add: py_int_def)
  moreover have "\<lceil>v\<rceil> \<le> 0" using False by (simp add: ceiling_le_iff)
  moreover have "- b \<le> \<lceil>v\<rceil>" using assms(1) by (simp add: le_ceiling_iff)
  moreover have "0 \<le> b" using False assms(1) by linarith
  ultimately show ?thesis by linarith
qed

lemma py_int_error: "\<bar>v - of_int (py_int v)\<bar> < 1"
  unfolding py_int_def by (cases "0 \<le> v") (simp; linarith)+

lemma sign_extend_16:
  assumes "- 32768 \<le> k" "k < 32768"
  shows "sign_extend (take_bit 16 k) = (k::int)"
proof (cases "0 \<le> k")
  case True
  then have "k mod 65536 = k" using assms by simp
  then show ?thesis using assms by (simp add: take_bit_eq_mod sign_extend_def)
next
  case False
  have "(k + 65536) mod 65536 = k + 65536"
    using assms False by (intro mod_pos_pos_trivial) simp_all
  then have "k mod 65536 = k + 65536" by simp
  then show ?thesis using False assms by (simp add: take_bit_eq_mod sign_extend_def)
qed

lemma sign_extend_16_range:
  "- 32768 \<le> sign_extend (take_bit 16 k) \<and> sign_extend (take_bit 16 k) < 32768"
proof -
  have a: "0 \<le> take_bit 16 k"
    by simp
  have b: "take_bit 16 k < 65536"
    using take_bit_int_less_exp [of 16 k] by simp
  have c: "- 32768 \<le> take_bit 16 k"
    using a by linarith
  show ?thesis
    using b c by (simp add: sign_extend_def)
qed

lemma sign_extend_16_take_bit:
  "take_bit 16 (sign_extend (take_bit 16 k)) = take_bit 16 (k::int)"
proof -
  have "take_bit 16 (take_bit 16 k - 65536) = take_bit 16 (take_bit 16 k)"
    unfolding take_bit_eq_mod [of 16 "take_bit 16 k - 65536"] take_bit_eq_mod [of 16 "take_bit 16 k"]
    by simp
  then show ?thesis by (simp add: sign_extend_def)
qed

lemma to_int_weight_code:
  "to_int g = pack5 (source_type g) (source_id g) (sink_type g) (sink_id g) (weight_code (weight g))"
  by (simp add: to_int_pack5 weight_code_def)

lemma weight_code_valid:
  assumes "- 4 \<le> v" "v \<le> 4"
  shows "weight_code v = py_int (fmul (fdiv v 4.0) 32767)" "- 32767 \<le> weight_code v"
    "weight_code v \<le> 32767"
proof -
  have "\<bar>v / 4\<bar> \<le> of_int 1"
    using assms by simp
  then have "\<bar>round64 (v / 4)\<bar> \<le> of_int 1"
    by (rule round64_abs_le_int) simp
  then have "\<bar>round64 (v / 4) * 32767\<bar> \<le> of_int 32767"
    by (simp add: abs_mult)
  then have "\<bar>round64 (round64 (v / 4) * 32767)\<bar> \<le> of_int 32767"
    by (rule round64_abs_le_int) simp
  then have "- real_of_int 32767 \<le> fmul (fdiv v 4.0) 32767" "fmul (fdiv v 4.0) 32767 \<le> real_of_int 32767"
    by (simp_all add: fmul_def fdiv_def abs_le_iff)
  then have r: "- 32767 \<le> py_int (fmul (fdiv v 4.0) 32767) \<and> py_int (fmul (fdiv v 4.0) 32767) \<le> 32767"
    by (rule py_int_range)
  then show "weight_code v = py_int (fmul (fdiv v 4.0) 32767)"
    by (simp add: weight_code_def)
  with r show "- 32767 \<le> weight_code v" "weight_code v \<le> 32767"
    by simp_all
qed

lemma take_bit_7_id: "0 \<le> k \<Longrightarrow> k \<le> 127 \<Longrightarrow> take_bit 7 k = (k::int)"
  by (simp add: take_bit_int_eq_self)

lemma gene_fields:
  assumes "valid_gene g"
  shows "source_type g = 0 \<or> source_type g = 1" "sink_type g = 0 \<or> sink_type g = 1"
    "take_bit 7 (source_id g) = source_id g" "take_bit 7 (sink_id g) = sink_id g"
    "- 4 \<le> weight g" "weight g \<le> 4"
  using assms by (simp_all add: valid_gene_def take_bit_7_id)

text \<open>Evaluation of the float operations at dyadic values and at the decoded weights.\<close>

lemma round64_dyadic:
  assumes "\<bar>m\<bar> < 2 ^ 53" "c \<le> 1074"
  shows "round64 (of_int m / 2 ^ c) = of_int m / 2 ^ c"
proof -
  have "2 powr real_of_int (- int c) = 1 / 2 ^ c"
    by (simp add: powr_minus powr_realpow inverse_eq_divide)
  then have "real_of_int m / 2 ^ c = of_int m * 2 powr of_int (- int c)"
    by simp
  moreover have "round64 (real_of_int m * 2 powr of_int (- int c)) = of_int m * 2 powr of_int (- int c)"
    using assms by (intro round64_exact) simp_all
  ultimately show ?thesis
    by simp
qed

lemma scaled_weight_one: "fmul (fdiv 1 4) 32767 = 32767 / 4"
proof -
  have "fdiv 1 4 = round64 (of_int 1 / 2 ^ 2)"
    by (simp add: fdiv_def)
  also have "\<dots> = of_int 1 / 2 ^ 2"
    by (rule round64_dyadic) simp_all
  finally have q: "fdiv 1 4 = of_int 1 / 2 ^ 2" .
  have "fmul (fdiv 1 4) 32767 = round64 (of_int 32767 / 2 ^ 2)"
    unfolding q by (simp add: fmul_def)
  also have "\<dots> = of_int 32767 / 2 ^ 2"
    by (rule round64_dyadic) simp_all
  finally show ?thesis
    by simp
qed

lemma decoded_weight:
  "fmul (fdiv (real_of_int k) 32767.0) 4.0 = round64 (of_int k / 32767) * 4"
proof -
  have "is_float (round64 (of_int k / 32767) * 4)"
    by (intro is_float_times_4 is_float_round64)
  then show ?thesis
    by (simp add: fmul_def fdiv_def round64_is_float)
qed

lemma decoded_weight_code:
  assumes "- 32768 \<le> k" "k \<le> 32767"
  shows "py_int (fmul (fdiv (fmul (fdiv (real_of_int k) 32767.0) 4.0) 4.0) 32767) = k"
proof -
  have "round64 (round64 (of_int k / 32767)) = round64 (of_int k / 32767)"
    by (intro round64_is_float is_float_round64)
  then have "fmul (fdiv (fmul (fdiv (real_of_int k) 32767.0) 4.0) 4.0) 32767 =
      round64 (round64 (of_int k / 32767) * 32767)"
    unfolding decoded_weight by (simp add: fmul_def fdiv_def)
  also have "\<dots> = of_int k"
    using assms by (rule reencode)
  finally show ?thesis
    by (simp only: py_int_of_int)
qed

lemma weight_from_int: "weight (from_int p) = round64 (of_int (sign_extend (take_bit 16 p)) / 32767) * 4"
  unfolding decoded_weight [symmetric]
  by (simp add: from_int_def and_FFFF sign_extend_def Let_def)

text \<open>
  The error of decoding the code of a weight: the bound \<open>4 / 32767\<close> is met because the
  truncated product is a float strictly below the next integer, at least one unit in the last
  place away, and the error of the division \<open>k / 32767\<close> is smaller than that gap.
\<close>

lemma weight_code_error:
  assumes "- 4 \<le> w" "w \<le> 4" "is_float w"
  shows "\<bar>round64 (of_int (weight_code w) / 32767) * 4 - w\<bar> \<le> 4 / 32767"
proof (cases "2 powr (- 1000) \<le> \<bar>w\<bar>")
  case True
  with assms(3) have "is_float (w / 4)"
    by (rule is_float_div_4)
  then have a: "fdiv w 4.0 = w / 4"
    by (simp add: fdiv_def round64_is_float)
  define P where "P = w / 4 * 32767"
  have "\<bar>P\<bar> \<le> 32767"
    using assms(1,2) by (simp add: P_def abs_le_iff)
  note d = decode_error [OF this]
  have c: "weight_code w = py_int (round64 P)"
    unfolding weight_code_valid(1) [OF assms(1,2)] a by (simp add: fmul_def P_def)
  have "P / 32767 = w / 4"
    by (simp add: P_def)
  with d(1) have "\<bar>w / 4 - round64 (of_int (weight_code w) / 32767)\<bar> \<le> 1 / 32767"
    unfolding c by simp
  then show ?thesis
    by (simp add: abs_if split: if_splits)
next
  case False
  have "(2::real) powr (- 1000) \<le> 2 powr (- 60)"
    by (intro powr_mono) simp_all
  also have "(2::real) powr (- 60) = 1 / 2 ^ 60"
    using powr_minus [of "2::real" 60] powr_realpow [of "2::real" 60] by (simp add: inverse_eq_divide)
  finally have t: "\<bar>w\<bar> < 1 / 2 ^ 60"
    using False by linarith
  define a where "a = round64 (w / 4)"
  define P where "P = a * 32767"
  have "\<bar>a - w / 4\<bar> \<le> 1 / 2 ^ 53"
  proof (cases "w = 0")
    case True
    then show ?thesis by (simp add: a_def round64_def)
  next
    case False
    then have "w / 4 \<noteq> 0" "\<bar>w / 4\<bar> * 2 ^ 0 < 2 ^ Suc 0"
      using t by simp_all
    then have "ulp (w / 4) \<le> 2 ^ 0 / (2 ^ 0 * 2 ^ 52)"
      by (intro ulp_le) simp_all
    with round64_error [of "w / 4"] show ?thesis
      by (simp add: a_def)
  qed
  with t have "\<bar>a\<bar> < 1 / 2 ^ 52"
    by (simp add: abs_if split: if_splits)
  then have p: "\<bar>P\<bar> < 1 / 2 ^ 37"
    by (simp add: P_def abs_if split: if_splits)
  have "\<bar>round64 P - P\<bar> \<le> 1 / 2 ^ 53"
  proof (cases "P = 0")
    case True
    then show ?thesis by (simp add: round64_def)
  next
    case False
    moreover have "\<bar>P\<bar> * 2 ^ 0 < 2 ^ Suc 0"
      using p by simp
    ultimately have "ulp P \<le> 2 ^ 0 / (2 ^ 0 * 2 ^ 52)"
      by (intro ulp_le) simp_all
    with round64_error [of P] show ?thesis
      by simp
  qed
  with p have "- 1 < round64 P" "round64 P < 1"
    by (simp_all add: abs_if split: if_splits)
  then have "py_int (round64 P) = 0"
    unfolding py_int_def by (auto simp add: floor_eq_iff ceiling_eq_iff)
  then have "weight_code w = 0"
    unfolding weight_code_valid(1) [OF assms(1,2)] by (simp add: fmul_def fdiv_def P_def a_def)
  with t show ?thesis
    by (simp add: round64_def abs_if split: if_splits)
qed

subsection \<open>Claims about the packed word\<close>

text \<open>
  C2, as the code has it. For every gene with kinds in \<open>{0, 1}\<close>, identifiers in \<open>[0, 127]\<close> and
  weight in \<open>[-4, 4]\<close>, \<open>to_int\<close> produces the 32-bit layout: bit 31 (and nothing above it) is the
  source kind, bits 30-24 the source identifier, bit 23 the sink kind, bits 22-16 the sink
  identifier, and bits 15-0 the two's-complement 16-bit code of the float
  \<^verbatim>\<open>weight / 4.0 * 32767\<close> (quotient and product each rounded as binary64 rounds them)
  truncated towards zero by Python's \<^verbatim>\<open>int\<close>, which the clamp to \<open>[-32768, 32767]\<close> leaves
  unchanged on these weights.
\<close>

theorem to_int_layout:
  assumes "valid_gene g"
  shows "drop_bit 31 (to_int g) = source_type g \<and>
         take_bit 7 (drop_bit 24 (to_int g)) = source_id g \<and>
         take_bit 1 (drop_bit 23 (to_int g)) = sink_type g \<and>
         take_bit 7 (drop_bit 16 (to_int g)) = sink_id g \<and>
         sign_extend (take_bit 16 (to_int g)) = py_int (fmul (fdiv (weight g) 4.0) 32767) \<and>
         max (- 32768) (min 32767 (py_int (fmul (fdiv (weight g) 4.0) 32767))) =
           py_int (fmul (fdiv (weight g) 4.0) 32767) \<and>
         to_int g = source_type g * 2 ^ 31 + source_id g * 2 ^ 24 + sink_type g * 2 ^ 23 +
                    sink_id g * 2 ^ 16 + py_int (fmul (fdiv (weight g) 4.0) 32767) mod 2 ^ 16"
proof -
  note f = gene_fields [OF assms]
  note c = weight_code_valid [OF f(5,6)]
  let ?c = "weight_code (weight g)"
  have p: "to_int g = pack5 (source_type g) (source_id g) (sink_type g) (sink_id g) ?c"
    by (rule to_int_weight_code)
  have 1: "drop_bit 31 (to_int g) = source_type g"
    unfolding p using f(2) by (rule pack5_source_type)
  have 2: "take_bit 7 (drop_bit 24 (to_int g)) = source_id g"
    unfolding p using pack5_source_id [OF f(2)] f(3) by simp
  have 3: "take_bit 1 (drop_bit 23 (to_int g)) = sink_type g"
    unfolding p using f(2) by (rule pack5_sink_type)
  have 4: "take_bit 7 (drop_bit 16 (to_int g)) = sink_id g"
    unfolding p using pack5_sink_id [OF f(2)] f(4) by simp
  have "sign_extend (take_bit 16 ?c) = ?c"
    using c(2,3) by (intro sign_extend_16) simp_all
  then have 5: "sign_extend (take_bit 16 (to_int g)) = py_int (fmul (fdiv (weight g) 4.0) 32767)"
    unfolding p pack5_low using c(1) by simp
  have 6: "max (- 32768) (min 32767 (py_int (fmul (fdiv (weight g) 4.0) 32767))) =
      py_int (fmul (fdiv (weight g) 4.0) 32767)"
    using c(1) by (simp add: weight_code_def)
  have 7: "to_int g = source_type g * 2 ^ 31 + source_id g * 2 ^ 24 + sink_type g * 2 ^ 23 +
                    sink_id g * 2 ^ 16 + py_int (fmul (fdiv (weight g) 4.0) 32767) mod 2 ^ 16"
    unfolding p pack5_sum [OF f(1,2)] f(3,4) c(1) by (simp add: take_bit_eq_mod)
  from 1 2 3 4 5 6 7 show ?thesis by blast
qed

theorem to_int_layout_witness:
  "valid_gene \<lparr>source_type = 1, source_id = 5, sink_type = 0, sink_id = 127, weight = 1\<rparr> \<and>
   drop_bit 31 (to_int \<lparr>source_type = 1, source_id = 5, sink_type = 0, sink_id = 127, weight = 1\<rparr>) = 1 \<and>
   take_bit 7 (drop_bit 24 (to_int \<lparr>source_type = 1, source_id = 5, sink_type = 0, sink_id = 127, weight = 1\<rparr>)) = 5 \<and>
   take_bit 1 (drop_bit 23 (to_int \<lparr>source_type = 1, source_id = 5, sink_type = 0, sink_id = 127, weight = 1\<rparr>)) = 0 \<and>
   take_bit 7 (drop_bit 16 (to_int \<lparr>source_type = 1, source_id = 5, sink_type = 0, sink_id = 127, weight = 1\<rparr>)) = 127 \<and>
   sign_extend (take_bit 16 (to_int \<lparr>source_type = 1, source_id = 5, sink_type = 0, sink_id = 127, weight = 1\<rparr>)) = 8191 \<and>
   to_int \<lparr>source_type = 1, source_id = 5, sink_type = 0, sink_id = 127, weight = 1\<rparr> = 0x857F1FFF"
proof -
  have v: "valid_gene \<lparr>source_type = 1, source_id = 5, sink_type = 0, sink_id = 127, weight = 1\<rparr>"
    by (simp add: valid_gene_def)
  have c: "py_int (fmul (fdiv (weight \<lparr>source_type = 1, source_id = 5, sink_type = 0, sink_id = 127, weight = 1\<rparr>) 4.0) 32767) = 8191"
    by (simp add: scaled_weight_one py_int_def)
  show ?thesis
    using v to_int_layout [OF v] unfolding c by (simp add: sign_extend_def)
qed

text \<open>
  C2 as stated fails: the specification rounds the weight code to the nearest integer, the
  code truncates. At weight \<open>1.0\<close> the quotient \<open>0.25\<close> and the product \<open>8191.75\<close> are exact in
  binary64: the code stores \<open>8191\<close>, rounding gives \<open>8192\<close>.
\<close>

theorem to_int_rounding_counterexample:
  "take_bit 16 (to_int \<lparr>source_type = 1, source_id = 5, sink_type = 0, sink_id = 127, weight = 1\<rparr>) = 8191 \<and>
   take_bit 16 (weight_code_spec 1) = 8192"
  by (simp add: to_int_def scaled_weight_one py_int_def weight_code_spec_def round_def)

text \<open>
  C3. For every gene with kinds in \<open>{0, 1}\<close>, identifiers in \<open>[0, 127]\<close> and a binary64 weight in
  \<open>[-4, 4]\<close>, decoding the packed word reproduces both kinds and both identifiers exactly and
  the weight within \<open>4.0 / 32767\<close> absolute error, with every float operation of \<open>to_int\<close> and
  \<open>from_int\<close> rounded as binary64 rounds it.
\<close>

theorem from_int_to_int_roundtrip:
  assumes "valid_gene g" "is_float (weight g)"
  shows "source_type (from_int (to_int g)) = source_type g \<and>
         source_id (from_int (to_int g)) = source_id g \<and>
         sink_type (from_int (to_int g)) = sink_type g \<and>
         sink_id (from_int (to_int g)) = sink_id g \<and>
         \<bar>weight (from_int (to_int g)) - weight g\<bar> \<le> 4.0 / 32767"
proof -
  note f = gene_fields [OF assms(1)]
  note c = weight_code_valid [OF f(5,6)]
  let ?c = "weight_code (weight g)"
  have p: "to_int g = pack5 (source_type g) (source_id g) (sink_type g) (sink_id g) ?c"
    by (rule to_int_weight_code)
  have "take_bit 1 (drop_bit 31 (to_int g)) = take_bit 1 (source_type g)"
    unfolding p pack5_source_type [OF f(2)] by (rule refl)
  then have 1: "source_type (from_int (to_int g)) = source_type g"
    using f(1) by (auto simp add: from_int_def and_1 Let_def)
  have 2: "source_id (from_int (to_int g)) = source_id g"
    using pack5_source_id [OF f(2)] f(3) by (simp add: from_int_def and_7F Let_def p)
  have 3: "sink_type (from_int (to_int g)) = sink_type g"
    using pack5_sink_type [OF f(2)] by (simp add: from_int_def and_1 Let_def p)
  have 4: "sink_id (from_int (to_int g)) = sink_id g"
    using pack5_sink_id [OF f(2)] f(4) by (simp add: from_int_def and_7F Let_def p)
  have "sign_extend (take_bit 16 ?c) = ?c"
    using c(2,3) by (intro sign_extend_16) simp_all
  then have "sign_extend (take_bit 16 (to_int g)) = ?c"
    unfolding p pack5_low .
  then have w: "weight (from_int (to_int g)) = round64 (of_int ?c / 32767) * 4"
    unfolding weight_from_int by simp
  have "\<bar>round64 (of_int ?c / 32767) * 4 - weight g\<bar> \<le> 4 / 32767"
    using f(5,6) assms(2) by (rule weight_code_error)
  then have 5: "\<bar>weight (from_int (to_int g)) - weight g\<bar> \<le> 4.0 / 32767"
    unfolding w by simp
  from 1 2 3 4 5 show ?thesis by blast
qed

theorem from_int_to_int_roundtrip_witness:
  "valid_gene \<lparr>source_type = 1, source_id = 5, sink_type = 0, sink_id = 127, weight = 1\<rparr> \<and>
   is_float (weight \<lparr>source_type = 1, source_id = 5, sink_type = 0, sink_id = 127, weight = 1\<rparr>) \<and>
   source_type (from_int (to_int \<lparr>source_type = 1, source_id = 5, sink_type = 0, sink_id = 127, weight = 1\<rparr>)) = 1 \<and>
   source_id (from_int (to_int \<lparr>source_type = 1, source_id = 5, sink_type = 0, sink_id = 127, weight = 1\<rparr>)) = 5 \<and>
   sink_type (from_int (to_int \<lparr>source_type = 1, source_id = 5, sink_type = 0, sink_id = 127, weight = 1\<rparr>)) = 0 \<and>
   sink_id (from_int (to_int \<lparr>source_type = 1, source_id = 5, sink_type = 0, sink_id = 127, weight = 1\<rparr>)) = 127 \<and>
   \<bar>weight (from_int (to_int \<lparr>source_type = 1, source_id = 5, sink_type = 0, sink_id = 127, weight = 1\<rparr>)) - 1\<bar> \<le> 4.0 / 32767"
proof -
  have v: "valid_gene \<lparr>source_type = 1, source_id = 5, sink_type = 0, sink_id = 127, weight = 1\<rparr>"
    by (simp add: valid_gene_def)
  have "is_float (of_int 1)"
    by (rule is_float_of_int) simp
  then have i: "is_float (weight \<lparr>source_type = 1, source_id = 5, sink_type = 0, sink_id = 127, weight = 1\<rparr>)"
    by simp
  show ?thesis
    using v i from_int_to_int_roundtrip [OF v i] by simp
qed

text \<open>
  C4. For every 32-bit word \<open>p\<close>, re-encoding the decoded gene gives \<open>p\<close> back: repeated
  decoding and encoding does not drift. The decoded weight \<open>4 * fl(k / 32767)\<close> is in general
  not \<open>4 * k / 32767\<close>; its code is \<open>k\<close> again because the product \<open>fl(k / 32767) * 32767\<close> rounds
  to the integer \<open>k\<close> exactly.
\<close>

theorem from_int_to_int_id:
  assumes "0 \<le> p" "p < 2 ^ 32"
  shows "to_int (from_int p) = p"
proof -
  let ?k = "sign_extend (take_bit 16 p)"
  have r: "- 32768 \<le> ?k \<and> ?k < 32768"
    by (rule sign_extend_16_range)
  have w: "weight (from_int p) = fmul (fdiv (real_of_int ?k) 32767.0) 4.0"
    by (simp add: from_int_def and_FFFF sign_extend_def Let_def)
  have "py_int (fmul (fdiv (weight (from_int p)) 4.0) 32767) = ?k"
    unfolding w using r by (intro decoded_weight_code) simp_all
  then have c: "max (- 32768) (min 32767 (py_int (fmul (fdiv (weight (from_int p)) 4.0) 32767))) = ?k"
    using r by simp
  have "to_int (from_int p) = pack5 (take_bit 1 (drop_bit 31 p)) (take_bit 7 (drop_bit 24 p))
      (take_bit 1 (drop_bit 23 p)) (take_bit 7 (drop_bit 16 p)) ?k"
    unfolding to_int_pack5 c by (simp add: from_int_def and_FFFF and_7F and_1 Let_def)
  also have "\<dots> = pack5 (take_bit 1 (drop_bit 31 p)) (take_bit 7 (drop_bit 24 p))
      (take_bit 1 (drop_bit 23 p)) (take_bit 7 (drop_bit 16 p)) (take_bit 16 p)"
    by (simp add: pack5_def sign_extend_16_take_bit)
  also have "\<dots> = p"
    using assms by (rule pack5_unpack)
  finally show ?thesis .
qed

theorem from_int_to_int_id_witness:
  "(0::int) \<le> 0x857F0001 \<and> (0x857F0001::int) < 2 ^ 32 \<and> to_int (from_int 0x857F0001) = 0x857F0001"
proof -
  have a: "(0::int) \<le> 0x857F0001" and b: "(0x857F0001::int) < 2 ^ 32"
    by simp_all
  show ?thesis
    using a b from_int_to_int_id [OF a b] by simp
qed
section \<open>Genome: copying, mutation and crossover on the store\<close>

subsection \<open>The generator\<close>

lemma random_randint_range:
  assumes "a \<le> b"
  shows "a \<le> fst (random_randint a b r) \<and> fst (random_randint a b r) \<le> b"
proof -
  have "0 \<le> int (r 0) mod (b - a + 1)"
    using assms by simp
  moreover have "int (r 0) mod (b - a + 1) < b - a + 1"
    using assms by (intro pos_mod_bound) linarith
  ultimately show ?thesis
    unfolding random_randint_def fst_conv by linarith
qed

lemma random_randint_hit:
  assumes "a \<le> n" "n \<le> b" "r 0 = nat (n - a)"
  shows "fst (random_randint a b r) = n"
  using assms by (simp add: random_randint_def)

lemma snd_random_randint [simp]: "snd (random_randint a b r) = rng_rest r"
  by (simp add: random_randint_def)

lemma length_new_gene: "new_gene h g = (h', a) \<Longrightarrow> h' = h @ [g] \<and> a = length h"
  by (auto simp add: new_gene_def)

lemma copy_genes_eq:
  "valid_refs h gs \<Longrightarrow> copy_genes h gs = (h @ genes_of h gs, [length h..<length h + length gs])"
proof (induction gs arbitrary: h)
  case Nil
  then show ?case by (simp add: genes_of_def)
next
  case (Cons a gs)
  from Cons.prems have a: "a < length h" and v: "valid_refs h gs"
    by (simp_all add: valid_refs_def)
  have v1: "valid_refs (h @ [h ! a]) gs"
    using v by (auto simp add: valid_refs_def list_all_iff)
  have g: "genes_of (h @ [h ! a]) gs = genes_of h gs"
    using v by (simp add: genes_of_def valid_refs_def list_all_iff nth_append)
  have u: "[length h..<length h + length (a # gs)] =
      length h # [length (h @ [h ! a])..<length (h @ [h ! a]) + length gs]"
    using upt_conv_Cons [of "length h" "length h + Suc (length gs)"] by (simp del: upt_Suc)
  have "copy_genes h (a # gs) =
      ((h @ [h ! a]) @ genes_of h gs, length h # [length (h @ [h ! a])..<length (h @ [h ! a]) + length gs])"
    unfolding copy_genes.simps Gene_copy_def new_gene_def Let_def prod.case Cons.IH [OF v1] g
    by (rule refl)
  then show ?case
    unfolding u by (simp add: genes_of_def)
qed

lemma Gene_mutate_heap:
  "Gene_mutate h a r = (h', r') \<Longrightarrow> length h' = length h \<and> (\<forall>x. x \<noteq> a \<longrightarrow> h' ! x = h ! x)"
  by (auto simp add: Gene_mutate_def Let_def split: prod.splits)

lemma point_mutations_heap:
  "point_mutations h gs rate r = (h', r') \<Longrightarrow>
     length h' = length h \<and> (\<forall>x. x \<notin> set gs \<longrightarrow> h' ! x = h ! x)"
proof (induction gs arbitrary: h r)
  case Nil
  then show ?case by simp
next
  case (Cons a gs)
  show ?case
  proof (cases "fst (random_random r) < rate")
    case True
    obtain h1 r2 where m: "Gene_mutate h a (snd (random_random r)) = (h1, r2)"
      by (cases "Gene_mutate h a (snd (random_random r))")
    with True Cons.prems have "point_mutations h1 gs rate r2 = (h', r')"
      by (simp add: split_beta)
    from Cons.IH [OF this] Gene_mutate_heap [OF m] show ?thesis
      by auto
  next
    case False
    with Cons.prems have "point_mutations h gs rate (snd (random_random r)) = (h', r')"
      by (simp add: split_beta)
    from Cons.IH [OF this] show ?thesis
      by auto
  qed
qed

lemma length_pop_at: "i < length xs \<Longrightarrow> length (pop_at xs i) = length xs - 1"
  by (simp add: pop_at_def)

lemma set_pop_at: "set (pop_at xs i) \<subseteq> set xs"
  by (auto simp add: pop_at_def dest: in_set_takeD in_set_dropD)


lemma Genome_mutate_cases:
  assumes "Genome_mutate h gs rate r = (h', gs', r')"
  obtains h1 g1 where
    "length h1 = length h" "\<forall>x. x \<notin> set gs \<longrightarrow> h1 ! x = h ! x"
    "g1 = gs \<or> (1 < length gs \<and> (\<exists>i<length gs. g1 = pop_at gs i))"
    "(h' = h1 \<and> gs' = g1) \<or> (length g1 < 50 \<and> (\<exists>g. h' = h1 @ [g] \<and> gs' = g1 @ [length h1]))"
proof -
  define h1 where "h1 = fst (point_mutations h gs rate r)"
  define r1 where "r1 = snd (point_mutations h gs rate r)"
  define r2 where "r2 = snd (random_random r1)"
  define del where "del \<longleftrightarrow> fst (random_random r1) < rate * 0.2 \<and> length gs > 1"
  define i where "i = nat (fst (random_randint 0 (int (length gs) - 1) r2))"
  define g1 where "g1 = (if del then pop_at gs i else gs)"
  define r3 where "r3 = (if del then rng_rest r2 else r2)"
  define ins where "ins \<longleftrightarrow> fst (random_random r3) < rate * 0.2 \<and> length g1 < 50"
  have pm: "point_mutations h gs rate r = (h1, r1)"
    by (simp add: h1_def r1_def)
  note hp = point_mutations_heap [OF pm]
  have "Genome_mutate h gs rate r =
      (if ins then (h1 @ [fst (Gene_random (snd (random_random r3)))], g1 @ [length h1],
                    snd (Gene_random (snd (random_random r3))))
       else (h1, g1, snd (random_random r3)))"
  proof (cases del)
    case True
    note c = True [unfolded del_def]
    have g: "g1 = pop_at gs i" "r3 = rng_rest r2"
      using True by (simp_all add: g1_def r3_def)
    show ?thesis
      unfolding Genome_mutate_def pm Let_def split_beta new_gene_def fst_conv snd_conv if_P [OF c]
      unfolding ins_def g i_def r2_def snd_random_randint
      by (rule refl)
  next
    case False
    note c = False [unfolded del_def]
    have g: "g1 = gs" "r3 = r2"
      using False by (simp_all add: g1_def r3_def)
    show ?thesis
      unfolding Genome_mutate_def pm Let_def split_beta new_gene_def fst_conv snd_conv if_not_P [OF c]
      unfolding ins_def g r2_def
      by (rule refl)
  qed
  with assms have res: "(h', gs', r') =
      (if ins then (h1 @ [fst (Gene_random (snd (random_random r3)))], g1 @ [length h1],
                    snd (Gene_random (snd (random_random r3))))
       else (h1, g1, snd (random_random r3)))"
    by simp
  have "i < length gs" if "1 < length gs"
  proof -
    have "(0::int) \<le> int (length gs) - 1"
      using that by linarith
    from random_randint_range [OF this, of r2] show ?thesis
      unfolding i_def by linarith
  qed
  then have 3: "g1 = gs \<or> (1 < length gs \<and> (\<exists>i<length gs. g1 = pop_at gs i))"
    unfolding g1_def del_def by auto
  have 4: "(h' = h1 \<and> gs' = g1) \<or> (length g1 < 50 \<and> (\<exists>g. h' = h1 @ [g] \<and> gs' = g1 @ [length h1]))"
  proof (cases ins)
    case True
    then have "length g1 < 50"
      by (simp add: ins_def)
    moreover from res True have "h' = h1 @ [fst (Gene_random (snd (random_random r3)))]"
      and "gs' = g1 @ [length h1]"
      by simp_all
    ultimately show ?thesis
      by blast
  next
    case False
    with res show ?thesis
      by simp
  qed
  from hp 3 4 show thesis
    by (intro that [of h1 g1]) auto
qed

lemma Genome_mutate_length:
  assumes "Genome_mutate h gs rate r = (h', gs', r')" "1 \<le> length gs" "length gs \<le> 50"
  shows "1 \<le> length gs' \<and> length gs' \<le> 50 \<and> length gs - 1 \<le> length gs' \<and> length gs' \<le> length gs + 1"
proof -
  from assms(1) obtain h1 g1 where
    g1: "g1 = gs \<or> (1 < length gs \<and> (\<exists>i<length gs. g1 = pop_at gs i))" and
    gs': "(h' = h1 \<and> gs' = g1) \<or> (length g1 < 50 \<and> (\<exists>g. h' = h1 @ [g] \<and> gs' = g1 @ [length h1]))"
    by (rule Genome_mutate_cases)
  from g1 have l1: "length g1 = length gs \<or> (1 < length gs \<and> length g1 = length gs - 1)"
    by (auto simp add: length_pop_at)
  from gs' have l2: "length gs' = length g1 \<or> (length g1 < 50 \<and> length gs' = length g1 + 1)"
    by auto
  from l1 l2 assms(2,3) show ?thesis
    by linarith
qed

lemma Genome_mutate_heap:
  assumes "Genome_mutate h gs rate r = (h', gs', r')"
  shows "length h \<le> length h' \<and> (\<forall>x<length h. x \<notin> set gs \<longrightarrow> h' ! x = h ! x) \<and>
         set gs' \<subseteq> set gs \<union> {length h}"
proof -
  from assms obtain h1 g1 where
    h1: "length h1 = length h" "\<forall>x. x \<notin> set gs \<longrightarrow> h1 ! x = h ! x" and
    g1: "g1 = gs \<or> (1 < length gs \<and> (\<exists>i<length gs. g1 = pop_at gs i))" and
    gs': "(h' = h1 \<and> gs' = g1) \<or> (length g1 < 50 \<and> (\<exists>g. h' = h1 @ [g] \<and> gs' = g1 @ [length h1]))"
    by (rule Genome_mutate_cases)
  from g1 have s: "set g1 \<subseteq> set gs"
    by (auto dest: subsetD [OF set_pop_at])
  from gs' h1 have "length h \<le> length h'"
    by auto
  moreover from gs' h1 have "\<forall>x<length h. x \<notin> set gs \<longrightarrow> h' ! x = h ! x"
    by (auto simp add: nth_append)
  moreover from gs' h1 s have "set gs' \<subseteq> set gs \<union> {length h}"
    by auto
  ultimately show ?thesis
    by blast
qed

lemma draws_simps [simp]:
  "draws (x # xs) 0 = x" "rng_rest (draws (x # xs)) = draws xs" "draws [] i = 0"
  by (auto simp add: draws_def rng_rest_def)

lemma genes_of_append_heap: "valid_refs h gs \<Longrightarrow> genes_of (h @ ext) gs = genes_of h gs"
  by (simp add: genes_of_def valid_refs_def list_all_iff nth_append)

lemma valid_refs_append_heap: "valid_refs h gs \<Longrightarrow> valid_refs (h @ ext) gs"
  by (auto simp add: valid_refs_def list_all_iff)

lemma valid_refs_take_drop:
  "valid_refs h gs \<Longrightarrow> valid_refs h (take n gs)" "valid_refs h gs \<Longrightarrow> valid_refs h (drop n gs)"
  by (auto simp add: valid_refs_def list_all_iff dest: in_set_takeD in_set_dropD)

lemma genes_of_fresh: "genes_of (h @ ext) [length h..<length h + length ext] = ext"
  by (rule nth_equalityI) (simp_all add: genes_of_def nth_append)

lemma genes_of_fresh_take:
  "genes_of (h @ ext) (take n [length h..<length h + length ext]) = take n ext"
  by (simp add: genes_of_def take_map [symmetric] del: take_upt) (metis genes_of_def genes_of_fresh)

lemma upt_split: "[i..<i + m] @ [i + m..<i + (m + n)] = [i..<i + (m + n)]"
  using upt_add_eq_append [of i "i + m" n] by (simp add: add.assoc)

lemma Genome_crossover_cases:
  assumes "valid_refs h a" "valid_refs h b" "Genome_crossover h a b r = (h', child, r')"
  defines "ca \<equiv> nat (fst (random_randint 0 (int (length a)) r))"
  defines "cb \<equiv> nat (fst (random_randint 0 (int (length b)) (rng_rest r)))"
  defines "sel \<equiv> take ca a @ drop cb b"
  shows "if sel = []
         then h' = h @ [fst (Gene_random (rng_rest (rng_rest r)))] \<and> child = [length h]
         else h' = h @ genes_of h sel \<and> child = take 50 [length h..<length h + length sel]"
proof -
  have va: "valid_refs h (take ca a)" and vb: "valid_refs h (drop cb b)"
    using assms(1,2) by (simp_all add: valid_refs_take_drop)
  have c1: "copy_genes h (take ca a) = (h @ genes_of h (take ca a), [length h..<length h + length (take ca a)])"
    using va by (rule copy_genes_eq)
  let ?h1 = "h @ genes_of h (take ca a)"
  have c2: "copy_genes ?h1 (drop cb b) =
      (?h1 @ genes_of h (drop cb b), [length ?h1..<length ?h1 + length (drop cb b)])"
    using copy_genes_eq [OF valid_refs_append_heap [OF vb]] genes_of_append_heap [OF vb]
    by simp
  have h2: "?h1 @ genes_of h (drop cb b) = h @ genes_of h sel"
    by (simp add: sel_def genes_of_def)
  have ch: "[length h..<length h + length (take ca a)] @ [length ?h1..<length ?h1 + length (drop cb b)]
      = [length h..<length h + length sel]"
    unfolding sel_def length_append
    by (simp add: genes_of_def upt_split add.assoc del: length_take length_drop)
  have t: "(if 50 < length xs then take 50 xs else xs) = take 50 xs" for xs :: "nat list"
    by simp
  have m: "(length (take 50 [length h..<length h + length sel]) = 0) = (sel = [])"
    by (auto simp add: min_def)
  have "Genome_crossover h a b r =
      (if sel = []
       then (h @ genes_of h sel @ [fst (Gene_random (rng_rest (rng_rest r)))], [length (h @ genes_of h sel)],
             snd (Gene_random (rng_rest (rng_rest r))))
       else (h @ genes_of h sel, take 50 [length h..<length h + length sel], rng_rest (rng_rest r)))"
    unfolding Genome_crossover_def Let_def split_beta snd_random_randint
    unfolding ca_def [symmetric] cb_def [symmetric] c1 fst_conv snd_conv c2 h2 ch t new_gene_def m
    by simp
  with assms(3) show ?thesis
    by (cases "sel = []") (auto simp add: genes_of_def)
qed

lemma rng_rest_draws_Nil [simp]: "rng_rest (draws []) = draws []"
  by (simp add: draws_def rng_rest_def)

lemma draws_Suc [simp]: "draws (x # xs) (Suc i) = draws xs i"
  by (simp add: draws_def)

lemma Genome_mutate_keeps:
  assumes "Genome_mutate h' child rate s = (h'', child', s')" "valid_refs h gs" "length h \<le> length h'"
    "\<forall>x\<in>set child. length h \<le> x"
  shows "genes_of h'' gs = genes_of h' gs"
proof -
  from Genome_mutate_heap [OF assms(1)]
  have k: "\<forall>x<length h'. x \<notin> set child \<longrightarrow> h'' ! x = h' ! x"
    by blast
  have "h'' ! x = h' ! x" if "x \<in> set gs" for x
  proof -
    from that assms(2) have "x < length h"
      by (simp add: valid_refs_def list_all_iff)
    with assms(3,4) have "x < length h'" "x \<notin> set child"
      by auto
    with k show ?thesis
      by blast
  qed
  then show ?thesis
    by (simp add: genes_of_def)
qed

lemma take_upt_fresh:
  "distinct (take k [i..<i + n])" "\<forall>x\<in>set (take k [i..<i + n]). i \<le> x \<and> x < i + n"
  "length (take k [i..<i + n]) = min n k"
proof -
  show "distinct (take k [i..<i + n])"
    by (rule distinct_take) simp
  show "\<forall>x\<in>set (take k [i..<i + n]). i \<le> x \<and> x < i + n"
    using set_take_subset [of k "[i..<i + n]"] by auto
  show "length (take k [i..<i + n]) = min n k"
    by simp
qed

subsection \<open>Claims about the genome operators\<close>

text \<open>
  C6. For all parent genomes \<open>a\<close> and \<open>b\<close> and all cut points \<open>ca \<le> len(a)\<close>, \<open>cb \<le> len(b)\<close>
  (the next two draws of the generator), \<open>Genome.crossover\<close> returns a child whose genes are
  copies of \<open>a[0:ca]\<close> followed by \<open>b[cb:]\<close>, truncated to 50 genes, or one random gene if that
  is empty. The length of the child is in \<open>[1, 50]\<close>. The copies are deep: the genes of the
  child are distinct objects created by the call, the parents read the same after the call,
  and they still do after any \<open>Genome.mutate\<close> of the child.
\<close>

theorem Genome_crossover_child:
  assumes "valid_refs h a" "valid_refs h b"
    and "ca \<le> length a" "cb \<le> length b" "r 0 = ca" "r 1 = cb"
    and "Genome_crossover h a b r = (h', child, r')"
  shows "genes_of h' child =
           (if take ca a @ drop cb b = [] then [fst (Gene_random (rng_rest (rng_rest r)))]
            else take 50 (genes_of h (take ca a) @ genes_of h (drop cb b))) \<and>
         1 \<le> length child \<and> length child \<le> 50 \<and>
         distinct child \<and> (\<forall>x\<in>set child. length h \<le> x \<and> x < length h') \<and>
         genes_of h' a = genes_of h a \<and> genes_of h' b = genes_of h b \<and>
         (\<forall>rate s. genes_of (fst (Genome_mutate h' child rate s)) a = genes_of h a \<and>
                   genes_of (fst (Genome_mutate h' child rate s)) b = genes_of h b)"
proof -
  let ?sel = "take ca a @ drop cb b"
  have ca: "nat (fst (random_randint 0 (int (length a)) r)) = ca"
    using assms(3,5) by (simp add: random_randint_def)
  have cb: "nat (fst (random_randint 0 (int (length b)) (rng_rest r))) = cb"
    using assms(4,6) by (simp add: random_randint_def rng_rest_def)
  from Genome_crossover_cases [OF assms(1,2,7)]
  have c: "if ?sel = []
         then h' = h @ [fst (Gene_random (rng_rest (rng_rest r)))] \<and> child = [length h]
         else h' = h @ genes_of h ?sel \<and> child = take 50 [length h..<length h + length ?sel]"
    unfolding ca cb .
  have 1: "genes_of h' child =
           (if ?sel = [] then [fst (Gene_random (rng_rest (rng_rest r)))]
            else take 50 (genes_of h (take ca a) @ genes_of h (drop cb b)))"
  proof (cases "?sel = []")
    case True
    with c show ?thesis by (simp add: genes_of_def)
  next
    case False
    note c' = c [unfolded if_not_P [OF False]]
    have le: "length (genes_of h ?sel) = length ?sel"
      by (simp add: genes_of_def)
    have g: "genes_of h ?sel = genes_of h (take ca a) @ genes_of h (drop cb b)"
      by (simp add: genes_of_def)
    have "genes_of h' child = take 50 (genes_of h ?sel)"
      unfolding conjunct1 [OF c'] conjunct2 [OF c']
      using genes_of_fresh_take [of h "genes_of h ?sel" 50] unfolding le .
    then show ?thesis
      unfolding if_not_P [OF False] g .
  qed
  have 234: "1 \<le> length child \<and> length child \<le> 50 \<and> distinct child \<and>
      (\<forall>x\<in>set child. length h \<le> x \<and> x < length h')"
  proof (cases "?sel = []")
    case True
    with c show ?thesis by simp
  next
    case False
    note c' = c [unfolded if_not_P [OF False]]
    define n where "n = length ?sel"
    have n: "0 < n"
      using False length_greater_0_conv [of ?sel] unfolding n_def by blast
    have ch: "child = take 50 [length h..<length h + n]"
      unfolding n_def by (rule conjunct2 [OF c'])
    have "length h' = length h + n"
      unfolding n_def conjunct1 [OF c'] by (simp add: genes_of_def)
    with n show ?thesis
      unfolding ch using take_upt_fresh [of 50 "length h" n] by (simp add: min_def)
  qed
  then have 2: "1 \<le> length child \<and> length child \<le> 50" and 3: "distinct child"
    and 4: "\<forall>x\<in>set child. length h \<le> x \<and> x < length h'"
    by blast+
  have ext: "\<exists>e. h' = h @ e"
    using c by (cases "?sel = []") auto
  then have 5: "genes_of h' a = genes_of h a" and 6: "genes_of h' b = genes_of h b"
    using genes_of_append_heap assms(1,2) by auto
  from ext have l: "length h \<le> length h'"
    by auto
  have 7: "genes_of (fst (Genome_mutate h' child rate s)) a = genes_of h a \<and>
           genes_of (fst (Genome_mutate h' child rate s)) b = genes_of h b" for rate s
  proof -
    obtain h'' child' s' where m: "Genome_mutate h' child rate s = (h'', child', s')"
      by (cases "Genome_mutate h' child rate s")
    from 4 have f: "\<forall>x\<in>set child. length h \<le> x"
      by blast
    from Genome_mutate_keeps [OF m assms(1) l f] Genome_mutate_keeps [OF m assms(2) l f] 5 6 m
    show ?thesis by simp
  qed
  from 1 2 3 4 5 6 7 show ?thesis
    by blast
qed

theorem Genome_crossover_child_witness:
  "valid_refs [\<lparr>source_type = 1, source_id = 5, sink_type = 0, sink_id = 127, weight = 1\<rparr>,
               \<lparr>source_type = 0, source_id = 3, sink_type = 1, sink_id = 2, weight = - 2\<rparr>] [0] \<and>
   valid_refs [\<lparr>source_type = 1, source_id = 5, sink_type = 0, sink_id = 127, weight = 1\<rparr>,
               \<lparr>source_type = 0, source_id = 3, sink_type = 1, sink_id = 2, weight = - 2\<rparr>] [1] \<and>
   Genome_crossover
     [\<lparr>source_type = 1, source_id = 5, sink_type = 0, sink_id = 127, weight = 1\<rparr>,
      \<lparr>source_type = 0, source_id = 3, sink_type = 1, sink_id = 2, weight = - 2\<rparr>] [0] [1] (draws [1, 0]) =
     ([\<lparr>source_type = 1, source_id = 5, sink_type = 0, sink_id = 127, weight = 1\<rparr>,
       \<lparr>source_type = 0, source_id = 3, sink_type = 1, sink_id = 2, weight = - 2\<rparr>,
       \<lparr>source_type = 1, source_id = 5, sink_type = 0, sink_id = 127, weight = 1\<rparr>,
       \<lparr>source_type = 0, source_id = 3, sink_type = 1, sink_id = 2, weight = - 2\<rparr>], [2, 3], draws []) \<and>
   genes_of (fst (Genome_mutate
      [\<lparr>source_type = 1, source_id = 5, sink_type = 0, sink_id = 127, weight = 1\<rparr>,
       \<lparr>source_type = 0, source_id = 3, sink_type = 1, sink_id = 2, weight = - 2\<rparr>,
       \<lparr>source_type = 1, source_id = 5, sink_type = 0, sink_id = 127, weight = 1\<rparr>,
       \<lparr>source_type = 0, source_id = 3, sink_type = 1, sink_id = 2, weight = - 2\<rparr>] [2, 3] 1 (draws []))) [0] =
     [\<lparr>source_type = 1, source_id = 5, sink_type = 0, sink_id = 127, weight = 1\<rparr>]"
proof -
  let ?g0 = "\<lparr>source_type = 1, source_id = 5, sink_type = 0, sink_id = 127, weight = 1\<rparr>"
  let ?g1 = "\<lparr>source_type = 0, source_id = 3, sink_type = 1, sink_id = 2, weight = - 2\<rparr>"
  have 1: "valid_refs [?g0, ?g1] [0]" and 2: "valid_refs [?g0, ?g1] [1]"
    by (simp_all add: valid_refs_def)
  have 3: "(1::nat) \<le> length [0::nat]" and 4: "(0::nat) \<le> length [1::nat]"
    by simp_all
  have 5: "draws [1, 0] 0 = 1" and 6: "draws [1, 0] 1 = 0"
    by simp_all
  have 7: "Genome_crossover [?g0, ?g1] [0] [1] (draws [1, 0]) = ([?g0, ?g1, ?g0, ?g1], [2, 3], draws [])"
    by (simp add: Genome_crossover_def random_randint_def Gene_copy_def new_gene_def)
  note t = Genome_crossover_child [OF 1 2 3 4 5 6 7]
  then have "genes_of (fst (Genome_mutate [?g0, ?g1, ?g0, ?g1] [2, 3] 1 (draws []))) [0] = genes_of [?g0, ?g1] [0]"
    by blast
  then have 8: "genes_of (fst (Genome_mutate [?g0, ?g1, ?g0, ?g1] [2, 3] 1 (draws []))) [0] = [?g0]"
    by (simp add: genes_of_def)
  from 1 2 7 8 show ?thesis
    by blast
qed

text \<open>
  C7. For every genome of length in \<open>[1, 50]\<close>, every mutation rate and every state of the
  generator, \<open>Genome.mutate\<close> leaves the length in \<open>[1, 50]\<close>: at most one gene is deleted and
  at most one appended, a deletion never empties the genome and an insertion never takes it
  past 50 genes.
\<close>

theorem Genome_mutate_length_bounds:
  assumes "1 \<le> length genes" "length genes \<le> 50"
    and "Genome_mutate h genes rate r = (h', genes', r')"
  shows "1 \<le> length genes' \<and> length genes' \<le> 50 \<and>
         length genes - 1 \<le> length genes' \<and> length genes' \<le> length genes + 1"
  using Genome_mutate_length [OF assms(3,1,2)] .

theorem Genome_mutate_length_bounds_witness:
  "(1::nat) \<le> length [0::nat] \<and> length [0::nat] \<le> 50 \<and>
   fst (snd (Genome_mutate
     [\<lparr>source_type = 1, source_id = 5, sink_type = 0, sink_id = 127, weight = 1\<rparr>] [0] 1 (draws []))) = [0, 1] \<and>
   1 \<le> length (fst (snd (Genome_mutate
     [\<lparr>source_type = 1, source_id = 5, sink_type = 0, sink_id = 127, weight = 1\<rparr>] [0] 1 (draws [])))) \<and>
   length (fst (snd (Genome_mutate
     [\<lparr>source_type = 1, source_id = 5, sink_type = 0, sink_id = 127, weight = 1\<rparr>] [0] 1 (draws [])))) \<le> 50"
proof -
  let ?h = "[\<lparr>source_type = 1, source_id = 5, sink_type = 0, sink_id = 127, weight = 1\<rparr>]"
  have a: "(1::nat) \<le> length [0::nat]" and b: "length [0::nat] \<le> 50"
    by simp_all
  have c: "Genome_mutate ?h [0] 1 (draws []) =
      (fst (Genome_mutate ?h [0] 1 (draws [])), fst (snd (Genome_mutate ?h [0] 1 (draws []))),
       snd (snd (Genome_mutate ?h [0] 1 (draws []))))"
    by simp
  have d: "fst (snd (Genome_mutate ?h [0] 1 (draws []))) = [0, 1]"
    by (simp add: Genome_mutate_def random_random_def Gene_mutate_def random_randint_def
        Gene_random_def random_uniform_def new_gene_def Let_def)
  from Genome_mutate_length_bounds [OF a b c] a b d show ?thesis
    by blast
qed

section \<open>Brain: resolution and evaluation\<close>

lemma fold_range_dict:
  "fold (\<lambda>i d. d(int i \<mapsto> v)) [0..<k] d0 = (\<lambda>i. if 0 \<le> i \<and> i < int k then Some v else d0 i)"
proof (induction k)
  case 0
  then show ?case by (auto simp add: fun_eq_iff)
next
  case (Suc k)
  show ?case
    unfolding upt_Suc_append [OF le0] fold_append comp_def Suc.IH
    by (auto simp add: fun_eq_iff)
qed

lemma range_dict_eq: "range_dict n v = (\<lambda>i. if 0 \<le> i \<and> i < n then Some v else None)"
  unfolding range_dict_def fold_range_dict by (auto simp add: fun_eq_iff)


lemma part_sum_Nil [simp]: "part_sum b sv [] t j = 0"
  by (simp add: part_sum_def)

lemma part_sum_Cons:
  "part_sum b sv ((src_t, src_i, snk_t, snk_i, w) # cs) t j =
     (if (snk_t = 1) = t \<and> snk_i = j then signal_of b sv (src_t, src_i, snk_t, snk_i, w) else 0)
     + part_sum b sv cs t j"
  by (simp add: part_sum_def)

lemma accumulate_eq:
  assumes "list_all (\<lambda>(src_t, src_i, snk_t, snk_i, w).
        (if snk_t = 1 then action_acc snk_i \<noteq> None else neuron_acc snk_i \<noteq> None)) cs"
  shows "accumulate b sv cs neuron_acc action_acc =
     Inr (\<lambda>i. map_option (\<lambda>v. v + part_sum b sv cs False i) (neuron_acc i),
          \<lambda>j. map_option (\<lambda>v. v + part_sum b sv cs True j) (action_acc j))"
  using assms
proof (induction cs arbitrary: neuron_acc action_acc)
  case Nil
  show ?case
    by (simp add: fun_eq_iff option.map_ident)
next
  case (Cons c cs)
  obtain src_t src_i snk_t snk_i w where c: "c = (src_t, src_i, snk_t, snk_i, w)"
    by (cases c)
  let ?s = "signal_of b sv c"
  have s: "(if src_t = 1 then dict_get sv src_i else dict_get (neuron_outputs b) src_i) * w = ?s"
    by (simp add: signal_of_def source_value_ref_def dict_get_def c)
  show ?case
  proof (cases "snk_t = 1")
    case True
    with Cons.prems c obtain v where v: "action_acc snk_i = Some v"
      by auto
    have ok: "list_all (\<lambda>(src_t, src_i, snk_t, snk_i', w).
        (if snk_t = 1 then (action_acc(snk_i \<mapsto> v + ?s)) snk_i' \<noteq> None else neuron_acc snk_i' \<noteq> None)) cs"
      unfolding list_all_iff
    proof (intro ballI)
      fix c' assume "c' \<in> set cs"
      with Cons.prems have "case c' of (src_t, src_i, snk_t, snk_i, w) \<Rightarrow>
          (if snk_t = 1 then action_acc snk_i \<noteq> None else neuron_acc snk_i \<noteq> None)"
        by (simp add: list_all_iff)
      then show "case c' of (src_t, src_i, snk_t, snk_i', w) \<Rightarrow>
          (if snk_t = 1 then (action_acc(snk_i \<mapsto> v + ?s)) snk_i' \<noteq> None else neuron_acc snk_i' \<noteq> None)"
        by (cases c') (auto split: if_splits)
    qed
    have "accumulate b sv (c # cs) neuron_acc action_acc =
        accumulate b sv cs neuron_acc (action_acc(snk_i \<mapsto> v + ?s))"
      using True v s by (simp add: c Let_def)
    also note Cons.IH [OF ok]
    also have "(\<lambda>i. map_option (\<lambda>v. v + part_sum b sv cs False i) (neuron_acc i)) =
        (\<lambda>i. map_option (\<lambda>v. v + part_sum b sv (c # cs) False i) (neuron_acc i))"
      using True by (simp add: c part_sum_Cons)
    also have "(\<lambda>j. map_option (\<lambda>v. v + part_sum b sv cs True j) ((action_acc(snk_i \<mapsto> v + ?s)) j)) =
        (\<lambda>j. map_option (\<lambda>v. v + part_sum b sv (c # cs) True j) (action_acc j))"
      using True v by (auto simp add: c part_sum_Cons fun_eq_iff)
    finally show ?thesis .
  next
    case False
    with Cons.prems c obtain v where v: "neuron_acc snk_i = Some v"
      by auto
    have ok: "list_all (\<lambda>(src_t, src_i, snk_t, snk_i', w).
        (if snk_t = 1 then action_acc snk_i' \<noteq> None else (neuron_acc(snk_i \<mapsto> v + ?s)) snk_i' \<noteq> None)) cs"
      unfolding list_all_iff
    proof (intro ballI)
      fix c' assume "c' \<in> set cs"
      with Cons.prems have "case c' of (src_t, src_i, snk_t, snk_i, w) \<Rightarrow>
          (if snk_t = 1 then action_acc snk_i \<noteq> None else neuron_acc snk_i \<noteq> None)"
        by (simp add: list_all_iff)
      then show "case c' of (src_t, src_i, snk_t, snk_i', w) \<Rightarrow>
          (if snk_t = 1 then action_acc snk_i' \<noteq> None else (neuron_acc(snk_i \<mapsto> v + ?s)) snk_i' \<noteq> None)"
        by (cases c') (auto split: if_splits)
    qed
    have "accumulate b sv (c # cs) neuron_acc action_acc =
        accumulate b sv cs (neuron_acc(snk_i \<mapsto> v + ?s)) action_acc"
      using False v s by (simp add: c Let_def)
    also note Cons.IH [OF ok]
    also have "(\<lambda>j. map_option (\<lambda>v. v + part_sum b sv cs True j) (action_acc j)) =
        (\<lambda>j. map_option (\<lambda>v. v + part_sum b sv (c # cs) True j) (action_acc j))"
      using False by (simp add: c part_sum_Cons)
    also have "(\<lambda>i. map_option (\<lambda>v. v + part_sum b sv cs False i) ((neuron_acc(snk_i \<mapsto> v + ?s)) i)) =
        (\<lambda>i. map_option (\<lambda>v. v + part_sum b sv (c # cs) False i) (neuron_acc i))"
      using False v by (auto simp add: c part_sum_Cons fun_eq_iff)
    finally show ?thesis .
  qed
qed

lemma squash_eq:
  assumes "\<forall>i\<in>set is. acc (int i) \<noteq> None"
  shows "squash is acc out =
     Inr (\<lambda>i. if i \<in> int ` set is then map_option tanh (acc i) else out i)"
  using assms
proof (induction "is" arbitrary: out)
  case Nil
  show ?case by simp
next
  case (Cons i "is")
  from Cons.prems obtain v where v: "acc (int i) = Some v"
    by auto
  from Cons.prems have "\<forall>i\<in>set is. acc (int i) \<noteq> None"
    by simp
  from Cons.IH [OF this] v show ?case
    by (auto simp add: fun_eq_iff)
qed


lemma part_sum_connections: "part_sum b sv (connections b) t j = sink_sum_ref b sv t j"
  by (simp add: part_sum_def sink_sum_ref_def signal_of_def)

lemma int_image_upt: "i \<in> int ` set [0..<nat n] \<longleftrightarrow> 0 \<le> i \<and> i < n"
proof
  assume "i \<in> int ` set [0..<nat n]"
  then show "0 \<le> i \<and> i < n" by auto
next
  assume "0 \<le> i \<and> i < n"
  then have "nat i \<in> set [0..<nat n]" "i = int (nat i)"
    by auto
  then show "i \<in> int ` set [0..<nat n]"
    by (rule_tac image_eqI)
qed

lemma feed_forward_eq:
  assumes "sinks_in_range b"
  shows "feed_forward b sensor_values =
     Inr (action_outputs_ref b sensor_values,
          b\<lparr>neuron_outputs := neuron_outputs_ref b sensor_values\<rparr>)"
proof -
  let ?nz = "range_dict (num_internal b) 0" and ?az = "range_dict (num_actions b) 0"
  let ?n = "\<lambda>i. map_option (\<lambda>v. v + part_sum b sensor_values (connections b) False i) (?nz i)"
  let ?a = "\<lambda>j. map_option (\<lambda>v. v + part_sum b sensor_values (connections b) True j) (?az j)"
  have pre: "list_all (\<lambda>(src_t, src_i, snk_t, snk_i, w).
        (if snk_t = 1 then ?az snk_i \<noteq> None else ?nz snk_i \<noteq> None)) (connections b)"
    using assms unfolding sinks_in_range_def list_all_iff range_dict_eq
    by (auto split: if_splits)
  have acc: "accumulate b sensor_values (connections b) ?nz ?az = Inr (?n, ?a)"
    using pre by (rule accumulate_eq)
  have n: "?n = (\<lambda>i. if 0 \<le> i \<and> i < num_internal b
                      then Some (sink_sum_ref b sensor_values False i) else None)"
    by (auto simp add: range_dict_eq part_sum_connections fun_eq_iff)
  have a: "?a = (\<lambda>j. if 0 \<le> j \<and> j < num_actions b
                      then Some (sink_sum_ref b sensor_values True j) else None)"
    by (auto simp add: range_dict_eq part_sum_connections fun_eq_iff)
  let ?N = "\<lambda>i. if 0 \<le> i \<and> i < num_internal b
                      then Some (sink_sum_ref b sensor_values False i) else None"
  let ?A = "\<lambda>j. if 0 \<le> j \<and> j < num_actions b
                      then Some (sink_sum_ref b sensor_values True j) else None"
  have acc': "accumulate b sensor_values (connections b) ?nz ?az = Inr (?N, ?A)"
    unfolding acc n a ..
  have "\<forall>i\<in>set [0..<nat (num_internal b)]. ?N (int i) \<noteq> None"
    by auto
  from squash_eq [OF this, of "neuron_outputs b"]
  have sn: "squash [0..<nat (num_internal b)] ?N (neuron_outputs b) =
      Inr (neuron_outputs_ref b sensor_values)"
    unfolding int_image_upt neuron_outputs_ref_def by (auto simp add: fun_eq_iff)
  have "\<forall>i\<in>set [0..<nat (num_actions b)]. ?A (int i) \<noteq> None"
    by auto
  from squash_eq [OF this, of Map.empty]
  have sa: "squash [0..<nat (num_actions b)] ?A Map.empty =
      Inr (action_outputs_ref b sensor_values)"
    unfolding int_image_upt action_outputs_ref_def by (auto simp add: fun_eq_iff)
  show ?thesis
    unfolding feed_forward_def Let_def acc' sum.case prod.case sn sa ..
qed

lemma resolve_eq:
  assumes "ns \<noteq> 0" "na \<noteq> 0" "ni \<noteq> 0"
  shows "resolve gs ns na ni conns = Inr (conns @ map (resolve_gene ns na ni) gs)"
  using assms by (induction gs arbitrary: conns) (simp_all add: py_mod_def resolve_gene_def)

lemma Brain_init_eq:
  assumes "ns \<noteq> 0" "na \<noteq> 0" "ni \<noteq> 0"
  shows "Brain_init h genes ns na ni =
     Inr \<lparr>num_sensors = ns, num_actions = na, num_internal = ni,
          connections = map (resolve_gene ns na ni) (genes_of h genes),
          neuron_outputs = range_dict ni 0\<rparr>"
  by (simp add: Brain_init_def resolve_eq [OF assms])

lemma Brain_init_sinks_in_range:
  assumes "0 < ns" "0 < na" "0 < ni" "Brain_init h genes ns na ni = Inr b"
  shows "sinks_in_range b"
proof -
  from assms have "b = \<lparr>num_sensors = ns, num_actions = na, num_internal = ni,
          connections = map (resolve_gene ns na ni) (genes_of h genes),
          neuron_outputs = range_dict ni 0\<rparr>"
    using Brain_init_eq [of ns na ni h genes] by simp
  then show ?thesis
    using assms(2,3) by (simp add: sinks_in_range_def list_all_iff resolve_gene_def)
qed

lemma feed_forward_sinks_in_range:
  assumes "sinks_in_range b" "feed_forward b sv = Inr (out, b')"
  shows "sinks_in_range b'"
proof -
  from feed_forward_eq [OF assms(1), of sv] assms(2)
  have "b' = b\<lparr>neuron_outputs := neuron_outputs_ref b sv\<rparr>"
    by simp
  with assms(1) show ?thesis
    by (simp add: sinks_in_range_def cong: if_cong)
qed

subsection \<open>Claims about the evaluation\<close>

text \<open>
  C5. For every sensor map and every stored neuron state, \<open>Brain.feed_forward\<close> on a brain
  whose connection sinks are keys of the accumulators (every brain \<open>Brain.__init__\<close> builds
  with positive counts, see \<open>Brain_init_sinks_in_range\<close>) returns without raising, and equals
  the reference definition: action output \<open>j\<close> is \<open>tanh\<close> of the sum, over the connections with
  action sink \<open>j\<close>, of source value times weight; a neuron source reads the neuron output
  stored before the call, a missing sensor key reads as \<open>0.0\<close>; the stored neuron outputs are
  replaced by \<open>tanh\<close> of the neuron sums, which were computed from the old outputs. The
  function takes no generator: its result is determined by the brain and the sensor map.
\<close>

theorem feed_forward_reference:
  assumes "sinks_in_range b"
  shows "feed_forward b sensor_values =
     Inr (action_outputs_ref b sensor_values,
          b\<lparr>neuron_outputs := neuron_outputs_ref b sensor_values\<rparr>)"
  using assms by (rule feed_forward_eq)

theorem feed_forward_reference_witness:
  "sinks_in_range
     \<lparr>num_sensors = 12, num_actions = 5, num_internal = 4,
      connections = [(1, 0, 1, 0, 2), (0, 1, 1, 0, 1), (1, 7, 0, 1, 3)],
      neuron_outputs = [1 \<mapsto> 1 / 2]\<rparr> \<and>
   feed_forward
     \<lparr>num_sensors = 12, num_actions = 5, num_internal = 4,
      connections = [(1, 0, 1, 0, 2), (0, 1, 1, 0, 1), (1, 7, 0, 1, 3)],
      neuron_outputs = [1 \<mapsto> 1 / 2]\<rparr> [0 \<mapsto> 1 / 4] =
   Inr (action_outputs_ref
     \<lparr>num_sensors = 12, num_actions = 5, num_internal = 4,
      connections = [(1, 0, 1, 0, 2), (0, 1, 1, 0, 1), (1, 7, 0, 1, 3)],
      neuron_outputs = [1 \<mapsto> 1 / 2]\<rparr> [0 \<mapsto> 1 / 4],
     \<lparr>num_sensors = 12, num_actions = 5, num_internal = 4,
      connections = [(1, 0, 1, 0, 2), (0, 1, 1, 0, 1), (1, 7, 0, 1, 3)],
      neuron_outputs = neuron_outputs_ref
     \<lparr>num_sensors = 12, num_actions = 5, num_internal = 4,
      connections = [(1, 0, 1, 0, 2), (0, 1, 1, 0, 1), (1, 7, 0, 1, 3)],
      neuron_outputs = [1 \<mapsto> 1 / 2]\<rparr> [0 \<mapsto> 1 / 4]\<rparr>) \<and>
   action_outputs_ref
     \<lparr>num_sensors = 12, num_actions = 5, num_internal = 4,
      connections = [(1, 0, 1, 0, 2), (0, 1, 1, 0, 1), (1, 7, 0, 1, 3)],
      neuron_outputs = [1 \<mapsto> 1 / 2]\<rparr> [0 \<mapsto> 1 / 4] 0 = Some (tanh 1) \<and>
   neuron_outputs_ref
     \<lparr>num_sensors = 12, num_actions = 5, num_internal = 4,
      connections = [(1, 0, 1, 0, 2), (0, 1, 1, 0, 1), (1, 7, 0, 1, 3)],
      neuron_outputs = [1 \<mapsto> 1 / 2]\<rparr> [0 \<mapsto> 1 / 4] 1 = Some 0"
proof -
  let ?b = "\<lparr>num_sensors = 12, num_actions = 5, num_internal = 4,
      connections = [(1, 0, 1, 0, 2), (0, 1, 1, 0, 1), (1, 7, 0, 1, 3)],
      neuron_outputs = [1 \<mapsto> 1 / 2]\<rparr>"
  have w: "sinks_in_range ?b"
    by (simp add: sinks_in_range_def)
  have a: "action_outputs_ref ?b [0 \<mapsto> 1 / 4] 0 = Some (tanh 1)"
    by (simp add: action_outputs_ref_def sink_sum_ref_def source_value_ref_def)
  have n: "neuron_outputs_ref ?b [0 \<mapsto> 1 / 4] 1 = Some 0"
    by (simp add: neuron_outputs_ref_def sink_sum_ref_def source_value_ref_def)
  from feed_forward_reference [OF w, of "[0 \<mapsto> 1 / 4]"] w a n show ?thesis
    by simp
qed

section \<open>Selection: the survival predicate\<close>

lemma div_as_floor: "a div b = \<lfloor>real_of_int a / real_of_int b\<rfloor>"
  by (simp add: floor_divide_of_int_eq)

lemma ge_half_even: "even w \<Longrightarrow> (x \<ge> w div 2) = (real_of_int x \<ge> real_of_int w / 2)"
  by (auto elim!: evenE)

lemma ge_three_quarters: "4 dvd w \<Longrightarrow> (x \<ge> w * 3 div 4) = (real_of_int x \<ge> 3 * real_of_int w / 4)"
  by (auto elim!: dvdE)

lemma selection_values:
  "RIGHT_HALF \<noteq> LEFT_HALF" "RIGHT_HALF \<noteq> CENTER_CIRCLE" "RIGHT_HALF \<noteq> CORNERS"
  "RIGHT_HALF \<noteq> RIGHT_QUARTER" "LEFT_HALF \<noteq> CENTER_CIRCLE" "LEFT_HALF \<noteq> CORNERS"
  "LEFT_HALF \<noteq> RIGHT_QUARTER" "CENTER_CIRCLE \<noteq> CORNERS" "CENTER_CIRCLE \<noteq> RIGHT_QUARTER"
  "CORNERS \<noteq> RIGHT_QUARTER"
  by (simp_all add: RIGHT_HALF_def LEFT_HALF_def CENTER_CIRCLE_def CORNERS_def RIGHT_QUARTER_def)

lemma survives_RIGHT_HALF:
  "selection s = RIGHT_HALF \<Longrightarrow> survives s indiv = (pos_x indiv \<ge> world_width s div 2)"
  by (simp add: survives_def)

lemma survives_LEFT_HALF:
  "selection s = LEFT_HALF \<Longrightarrow> survives s indiv = (pos_x indiv < world_width s div 2)"
  by (simp add: survives_def selection_values selection_values [symmetric])

lemma survives_CENTER_CIRCLE:
  "selection s = CENTER_CIRCLE \<Longrightarrow> survives s indiv =
        ((real_of_int (pos_x indiv) - real_of_int (world_width s) / 2) ^ 2 +
         (real_of_int (pos_y indiv) - real_of_int (world_height s) / 2) ^ 2
           \<le> (real_of_int (min (world_width s) (world_height s)) / 4) ^ 2)"
  by (simp add: survives_def selection_values selection_values [symmetric] Let_def)

lemma survives_CORNERS:
  "selection s = CORNERS \<Longrightarrow> survives s indiv =
        ((pos_x indiv < world_width s div 4 \<or> pos_x indiv \<ge> world_width s - world_width s div 4) \<and>
         (pos_y indiv < world_height s div 4 \<or> pos_y indiv \<ge> world_height s - world_height s div 4))"
  by (simp add: survives_def selection_values selection_values [symmetric] Let_def)

lemma survives_RIGHT_QUARTER:
  "selection s = RIGHT_QUARTER \<Longrightarrow> survives s indiv = (pos_x indiv \<ge> world_width s * 3 div 4)"
  by (simp add: survives_def selection_values selection_values [symmetric])

lemma survives_other:
  "selection s \<notin> {RIGHT_HALF, LEFT_HALF, CENTER_CIRCLE, CORNERS, RIGHT_QUARTER} \<Longrightarrow> survives s indiv"
  by (simp add: survives_def)

lemma floor_half: "\<lfloor>real_of_int w / 2\<rfloor> = w div 2"
  using floor_divide_of_int_eq [of w 2] by simp

lemma floor_quarter: "\<lfloor>real_of_int w / 4\<rfloor> = w div 4"
  using floor_divide_of_int_eq [of w 4] by simp

lemma floor_three_quarters: "\<lfloor>3 * real_of_int w / 4\<rfloor> = w * 3 div 4"
  using floor_divide_of_int_eq [of "w * 3" 4] by (simp add: mult.commute)

lemma quarter_real:
  assumes "4 dvd w"
  shows "(x < w div 4) = (real_of_int x < real_of_int w / 4)"
    "(x \<ge> w - w div 4) = (real_of_int x \<ge> real_of_int w - real_of_int w / 4)"
    "(x \<ge> w div 2) = (real_of_int x \<ge> real_of_int w / 2)"
    "(x < w div 2) = (real_of_int x < real_of_int w / 2)"
    "(x \<ge> w * 3 div 4) = (real_of_int x \<ge> 3 * real_of_int w / 4)"
proof -
  from assms obtain k where w: "w = 4 * k"
    by (elim dvdE)
  show "(x < w div 4) = (real_of_int x < real_of_int w / 4)"
    unfolding w by simp
  show "(x \<ge> w - w div 4) = (real_of_int x \<ge> real_of_int w - real_of_int w / 4)"
    unfolding w by simp linarith
  show "(x \<ge> w div 2) = (real_of_int x \<ge> real_of_int w / 2)"
    unfolding w by simp linarith
  show "(x < w div 2) = (real_of_int x < real_of_int w / 2)"
    unfolding w by simp linarith
  show "(x \<ge> w * 3 div 4) = (real_of_int x \<ge> 3 * real_of_int w / 4)"
    unfolding w by simp linarith
qed

lemma survives_spec_multiple_of_4:
  assumes "4 dvd world_width s" "4 dvd world_height s"
  shows "survives s indiv =
        survives_spec (selection s) (world_width s) (world_height s) (pos_x indiv) (pos_y indiv)"
proof -
  consider "selection s = RIGHT_HALF" | "selection s = LEFT_HALF" | "selection s = CENTER_CIRCLE"
    | "selection s = CORNERS" | "selection s = RIGHT_QUARTER"
    | "selection s \<notin> {RIGHT_HALF, LEFT_HALF, CENTER_CIRCLE, CORNERS, RIGHT_QUARTER}"
    by blast
  then show ?thesis
  proof cases
    case 1
    then show ?thesis
      by (simp add: survives_RIGHT_HALF survives_spec_def quarter_real [OF assms(1)])
  next
    case 2
    then show ?thesis
      by (simp add: survives_LEFT_HALF survives_spec_def quarter_real [OF assms(1)] selection_values [symmetric])
  next
    case 3
    then show ?thesis
      by (simp add: survives_CENTER_CIRCLE survives_spec_def selection_values [symmetric])
  next
    case 4
    then show ?thesis
      by (simp add: survives_CORNERS survives_spec_def quarter_real(1,2) [OF assms(1)]
          quarter_real(1,2) [OF assms(2)] selection_values [symmetric])
  next
    case 5
    then show ?thesis
      by (simp add: survives_RIGHT_QUARTER survives_spec_def quarter_real [OF assms(1)] selection_values [symmetric])
  next
    case 6
    then show ?thesis
      by (simp add: survives_other survives_spec_def)
  qed
qed

lemma example_fields [simp]:
  "world_width (example_world w h k sel) = w" "world_height (example_world w h k sel) = h"
  "selection (example_world w h k sel) = sel"
  "pos_x (example_creature x y) = x" "pos_y (example_creature x y) = y"
  by (simp_all add: example_world_def example_creature_def)

subsection \<open>Claims about the survival predicate\<close>

text \<open>
  C8, as the code has it. For every position \<open>(x, y)\<close> and world \<open>(width, height)\<close>:
  \<open>RIGHT_HALF\<close> iff \<open>x \<ge> \<lfloor>width / 2\<rfloor>\<close>, \<open>LEFT_HALF\<close> iff \<open>x < \<lfloor>width / 2\<rfloor>\<close>, \<open>CENTER_CIRCLE\<close> iff
  \<open>(x - w / 2)\<^sup>2 + (y - h / 2)\<^sup>2 \<le> (min(w, h) / 4)\<^sup>2\<close> over the reals, \<open>CORNERS\<close> iff
  \<open>x < \<lfloor>w / 4\<rfloor>\<close> or \<open>x \<ge> w - \<lfloor>w / 4\<rfloor>\<close>, and the same for \<open>y\<close> with \<open>h\<close>, \<open>RIGHT_QUARTER\<close> iff
  \<open>x \<ge> \<lfloor>3 * width / 4\<rfloor>\<close>, and every other selection value lets everyone survive. When width
  and height are multiples of 4 this is the predicate of the specification with \<open>/\<close> read as
  real division. In an 8 by 8 world, \<open>(6, 3)\<close> satisfies \<open>RIGHT_HALF\<close> and \<open>RIGHT_QUARTER\<close> but
  not \<open>CORNERS\<close>, and \<open>(7, 7)\<close> satisfies \<open>RIGHT_HALF\<close>, \<open>RIGHT_QUARTER\<close> and \<open>CORNERS\<close> but not
  \<open>CENTER_CIRCLE\<close>.
\<close>

theorem survives_formulas:
  "(selection s = RIGHT_HALF \<longrightarrow>
      survives s indiv = (pos_x indiv \<ge> \<lfloor>real_of_int (world_width s) / 2\<rfloor>)) \<and>
   (selection s = LEFT_HALF \<longrightarrow>
      survives s indiv = (pos_x indiv < \<lfloor>real_of_int (world_width s) / 2\<rfloor>)) \<and>
   (selection s = CENTER_CIRCLE \<longrightarrow>
      survives s indiv =
        ((real_of_int (pos_x indiv) - real_of_int (world_width s) / 2) ^ 2 +
         (real_of_int (pos_y indiv) - real_of_int (world_height s) / 2) ^ 2
           \<le> (real_of_int (min (world_width s) (world_height s)) / 4) ^ 2)) \<and>
   (selection s = CORNERS \<longrightarrow>
      survives s indiv =
        ((pos_x indiv < \<lfloor>real_of_int (world_width s) / 4\<rfloor> \<or>
          pos_x indiv \<ge> world_width s - \<lfloor>real_of_int (world_width s) / 4\<rfloor>) \<and>
         (pos_y indiv < \<lfloor>real_of_int (world_height s) / 4\<rfloor> \<or>
          pos_y indiv \<ge> world_height s - \<lfloor>real_of_int (world_height s) / 4\<rfloor>))) \<and>
   (selection s = RIGHT_QUARTER \<longrightarrow>
      survives s indiv = (pos_x indiv \<ge> \<lfloor>3 * real_of_int (world_width s) / 4\<rfloor>)) \<and>
   (selection s \<notin> {RIGHT_HALF, LEFT_HALF, CENTER_CIRCLE, CORNERS, RIGHT_QUARTER} \<longrightarrow>
      survives s indiv) \<and>
   (4 dvd world_width s \<and> 4 dvd world_height s \<longrightarrow>
      survives s indiv =
        survives_spec (selection s) (world_width s) (world_height s) (pos_x indiv) (pos_y indiv)) \<and>
   (world_width s = 8 \<and> world_height s = 8 \<and> pos_x indiv = 6 \<and> pos_y indiv = 3 \<longrightarrow>
      (selection s = RIGHT_HALF \<longrightarrow> survives s indiv) \<and>
      (selection s = RIGHT_QUARTER \<longrightarrow> survives s indiv) \<and>
      (selection s = CORNERS \<longrightarrow> \<not> survives s indiv)) \<and>
   (world_width s = 8 \<and> world_height s = 8 \<and> pos_x indiv = 7 \<and> pos_y indiv = 7 \<longrightarrow>
      (selection s = RIGHT_HALF \<longrightarrow> survives s indiv) \<and>
      (selection s = RIGHT_QUARTER \<longrightarrow> survives s indiv) \<and>
      (selection s = CORNERS \<longrightarrow> survives s indiv) \<and>
      (selection s = CENTER_CIRCLE \<longrightarrow> \<not> survives s indiv))"
proof -
  have 1: "selection s = RIGHT_HALF \<longrightarrow>
      survives s indiv = (pos_x indiv \<ge> \<lfloor>real_of_int (world_width s) / 2\<rfloor>)"
    by (simp add: survives_RIGHT_HALF floor_half)
  have 2: "selection s = LEFT_HALF \<longrightarrow>
      survives s indiv = (pos_x indiv < \<lfloor>real_of_int (world_width s) / 2\<rfloor>)"
    by (simp add: survives_LEFT_HALF floor_half)
  have 3: "selection s = CENTER_CIRCLE \<longrightarrow>
      survives s indiv =
        ((real_of_int (pos_x indiv) - real_of_int (world_width s) / 2) ^ 2 +
         (real_of_int (pos_y indiv) - real_of_int (world_height s) / 2) ^ 2
           \<le> (real_of_int (min (world_width s) (world_height s)) / 4) ^ 2)"
    using survives_CENTER_CIRCLE by blast
  have 4: "selection s = CORNERS \<longrightarrow>
      survives s indiv =
        ((pos_x indiv < \<lfloor>real_of_int (world_width s) / 4\<rfloor> \<or>
          pos_x indiv \<ge> world_width s - \<lfloor>real_of_int (world_width s) / 4\<rfloor>) \<and>
         (pos_y indiv < \<lfloor>real_of_int (world_height s) / 4\<rfloor> \<or>
          pos_y indiv \<ge> world_height s - \<lfloor>real_of_int (world_height s) / 4\<rfloor>))"
    unfolding floor_quarter using survives_CORNERS by blast
  have 5: "selection s = RIGHT_QUARTER \<longrightarrow>
      survives s indiv = (pos_x indiv \<ge> \<lfloor>3 * real_of_int (world_width s) / 4\<rfloor>)"
    unfolding floor_three_quarters using survives_RIGHT_QUARTER by blast
  have 6: "selection s \<notin> {RIGHT_HALF, LEFT_HALF, CENTER_CIRCLE, CORNERS, RIGHT_QUARTER} \<longrightarrow>
      survives s indiv"
    using survives_other by blast
  have 7: "4 dvd world_width s \<and> 4 dvd world_height s \<longrightarrow>
      survives s indiv =
        survives_spec (selection s) (world_width s) (world_height s) (pos_x indiv) (pos_y indiv)"
    using survives_spec_multiple_of_4 by blast
  have 8: "world_width s = 8 \<and> world_height s = 8 \<and> pos_x indiv = 6 \<and> pos_y indiv = 3 \<longrightarrow>
      (selection s = RIGHT_HALF \<longrightarrow> survives s indiv) \<and>
      (selection s = RIGHT_QUARTER \<longrightarrow> survives s indiv) \<and>
      (selection s = CORNERS \<longrightarrow> \<not> survives s indiv)"
    by (simp add: survives_RIGHT_HALF survives_RIGHT_QUARTER survives_CORNERS)
  have 9: "world_width s = 8 \<and> world_height s = 8 \<and> pos_x indiv = 7 \<and> pos_y indiv = 7 \<longrightarrow>
      (selection s = RIGHT_HALF \<longrightarrow> survives s indiv) \<and>
      (selection s = RIGHT_QUARTER \<longrightarrow> survives s indiv) \<and>
      (selection s = CORNERS \<longrightarrow> survives s indiv) \<and>
      (selection s = CENTER_CIRCLE \<longrightarrow> \<not> survives s indiv)"
    by (simp add: survives_RIGHT_HALF survives_RIGHT_QUARTER survives_CORNERS survives_CENTER_CIRCLE)
  from 1 2 3 4 5 6 7 8 9 show ?thesis
    by blast
qed

theorem survives_formulas_witness:
  "(4::int) dvd 8 \<and>
   survives (example_world 8 8 4 RIGHT_HALF) (example_creature 6 3) \<and>
   survives (example_world 8 8 4 RIGHT_QUARTER) (example_creature 6 3) \<and>
   \<not> survives (example_world 8 8 4 CORNERS) (example_creature 6 3) \<and>
   survives (example_world 8 8 4 RIGHT_HALF) (example_creature 7 7) \<and>
   survives (example_world 8 8 4 RIGHT_QUARTER) (example_creature 7 7) \<and>
   survives (example_world 8 8 4 CORNERS) (example_creature 7 7) \<and>
   \<not> survives (example_world 8 8 4 CENTER_CIRCLE) (example_creature 7 7) \<and>
   survives (example_world 8 8 4 CORNERS) (example_creature 7 7) =
     survives_spec CORNERS 8 8 7 7"
proof -
  have 0: "(4::int) dvd 8"
    by simp
  have 1: "survives (example_world 8 8 4 RIGHT_HALF) (example_creature 6 3)"
    using survives_formulas [of "example_world 8 8 4 RIGHT_HALF" "example_creature 6 3"] by simp
  have 2: "survives (example_world 8 8 4 RIGHT_QUARTER) (example_creature 6 3)"
    using survives_formulas [of "example_world 8 8 4 RIGHT_QUARTER" "example_creature 6 3"] by simp
  have 3: "\<not> survives (example_world 8 8 4 CORNERS) (example_creature 6 3)"
    using survives_formulas [of "example_world 8 8 4 CORNERS" "example_creature 6 3"] by simp
  have 4: "survives (example_world 8 8 4 RIGHT_HALF) (example_creature 7 7)"
    using survives_formulas [of "example_world 8 8 4 RIGHT_HALF" "example_creature 7 7"] by simp
  have 5: "survives (example_world 8 8 4 RIGHT_QUARTER) (example_creature 7 7)"
    using survives_formulas [of "example_world 8 8 4 RIGHT_QUARTER" "example_creature 7 7"] by simp
  have 6: "survives (example_world 8 8 4 CORNERS) (example_creature 7 7)"
    using survives_formulas [of "example_world 8 8 4 CORNERS" "example_creature 7 7"] by simp
  have 7: "\<not> survives (example_world 8 8 4 CENTER_CIRCLE) (example_creature 7 7)"
    using survives_formulas [of "example_world 8 8 4 CENTER_CIRCLE" "example_creature 7 7"] by simp
  have 8: "survives (example_world 8 8 4 CORNERS) (example_creature 7 7) =
     survives_spec CORNERS 8 8 7 7"
    using 0 survives_formulas [of "example_world 8 8 4 CORNERS" "example_creature 7 7"]
    unfolding example_fields by blast
  from 0 1 2 3 4 5 6 7 8 show ?thesis
    by blast
qed

text \<open>
  C8 as stated fails, whichever division its \<open>/\<close> is. With real division, \<open>RIGHT_HALF\<close> in a
  world of width 5 lets \<open>x = 2\<close> survive although \<open>2 < 5 / 2\<close>; with floor division,
  \<open>CENTER_CIRCLE\<close> in a 5 by 5 world would let \<open>(1, 2)\<close> survive, and the code does not.
\<close>

theorem survives_division_counterexample:
  "survives (example_world 5 5 4 RIGHT_HALF) (example_creature 2 2) \<and>
   \<not> survives_spec RIGHT_HALF 5 5 2 2 \<and>
   \<not> survives (example_world 5 5 4 CENTER_CIRCLE) (example_creature 1 2) \<and>
   survives_spec_floor CENTER_CIRCLE 5 5 1 2"
  by (simp add: survives_def survives_spec_def survives_spec_floor_def example_world_def
      example_creature_def selection_values selection_values [symmetric] Let_def power2_eq_square)

section \<open>Reproduction\<close>

lemma extends_refl [simp]: "extends h h"
  by (simp add: extends_def)

lemma extends_append [simp]: "extends h (h @ e)"
  by (simp add: extends_def)

lemma extends_length: "extends h h' \<Longrightarrow> length h \<le> length h'"
  by (simp add: extends_def)

lemma extends_nth: "extends h h' \<Longrightarrow> a < length h \<Longrightarrow> h' ! a = h ! a"
proof -
  assume e: "extends h h'" and a: "a < length h"
  from e have "take (length h) h' = h"
    by (simp add: extends_def)
  then have "take (length h) h' ! a = h ! a"
    by simp
  with a show ?thesis
    by simp
qed

lemma extendsI:
  assumes "length h \<le> length h'" "\<And>a. a < length h \<Longrightarrow> h' ! a = h ! a"
  shows "extends h h'"
  unfolding extends_def using assms by (auto intro: nth_equalityI)

lemma extends_trans: "extends h h1 \<Longrightarrow> extends h1 h2 \<Longrightarrow> extends h h2"
proof (rule extendsI)
  assume e: "extends h h1" "extends h1 h2"
  then show "length h \<le> length h2"
    using extends_length [of h h1] extends_length [of h1 h2] by linarith
  fix a assume a: "a < length h"
  with e have "a < length h1"
    using extends_length [of h h1] by linarith
  with e a show "h2 ! a = h ! a"
    by (simp add: extends_nth)
qed

lemma extends_genes_of: "extends h h' \<Longrightarrow> valid_refs h gs \<Longrightarrow> genes_of h' gs = genes_of h gs"
  by (simp add: genes_of_def valid_refs_def list_all_iff extends_nth)

lemma extends_valid_refs: "extends h h' \<Longrightarrow> valid_refs h gs \<Longrightarrow> valid_refs h' gs"
  by (auto simp add: extends_def valid_refs_def list_all_iff)

lemma fresh_in_iff: "fresh_in h h' c \<longleftrightarrow> (\<forall>a\<in>set c. length h \<le> a \<and> a < length h')"
  by (simp add: fresh_in_def list_all_iff)

lemma Genome_mutate_fresh:
  assumes "Genome_mutate h1 c rate r = (h2, c', r')" "fresh_in h h1 c" "length h \<le> length h1"
  shows "length h1 \<le> length h2" "fresh_in h h2 c'" "\<forall>a<length h. h2 ! a = h1 ! a"
proof -
  from assms(1) obtain hm g1 where
    hm: "length hm = length h1" "\<forall>x. x \<notin> set c \<longrightarrow> hm ! x = h1 ! x" and
    g1: "g1 = c \<or> (1 < length c \<and> (\<exists>i<length c. g1 = pop_at c i))" and
    res: "(h2 = hm \<and> c' = g1) \<or> (length g1 < 50 \<and> (\<exists>g. h2 = hm @ [g] \<and> c' = g1 @ [length hm]))"
    by (rule Genome_mutate_cases)
  from g1 have s: "set g1 \<subseteq> set c"
    by (auto dest: subsetD [OF set_pop_at])
  have f: "\<forall>a\<in>set c. length h \<le> a \<and> a < length h1"
    using assms(2) by (simp add: fresh_in_iff)
  show l: "length h1 \<le> length h2"
    using res hm(1) by auto
  show "fresh_in h h2 c'"
    unfolding fresh_in_iff
  proof
    fix a assume "a \<in> set c'"
    with res consider "a \<in> set g1" | "a = length hm" "length h2 = Suc (length hm)"
      by auto
    then show "length h \<le> a \<and> a < length h2"
    proof cases
      case 1
      with s have "a \<in> set c" by blast
      with f have "length h \<le> a" "a < length h1" by blast+
      with l show ?thesis by linarith
    next
      case 2
      with hm(1) assms(3) show ?thesis by simp
    qed
  qed
  show "\<forall>a<length h. h2 ! a = h1 ! a"
  proof (intro allI impI)
    fix a assume a: "a < length h"
    with f have "a \<notin> set c"
      by auto
    with hm(2) have "hm ! a = h1 ! a"
      by blast
    moreover have "h2 ! a = hm ! a"
      using res a assms(3) hm(1) by (auto simp add: nth_append)
    ultimately show "h2 ! a = h1 ! a"
      by simp
  qed
qed

lemma children_loop_trace:
  assumes body: "\<And>ha ra hb c rb. extends h ha \<Longrightarrow> body ha ra = (hb, c, rb) \<Longrightarrow> extends ha hb"
    and "extends h hk" and "children_loop n body hk rk acc = (cs, h', r')"
  shows "extends hk h' \<and> length cs = length acc + n \<and> take (length acc) cs = acc \<and>
     loop_state n body hk rk = (h', r') \<and>
     (\<forall>k<n. \<exists>ha ra hb rb. loop_state k body hk rk = (ha, ra) \<and>
               loop_state (Suc k) body hk rk = (hb, rb) \<and> extends h ha \<and> extends hb h' \<and>
               body ha ra = (hb, cs ! (length acc + k), rb))"
  using assms(2,3)
proof (induction n arbitrary: hk rk acc)
  case 0
  then show ?case by simp
next
  case (Suc n)
  obtain h1 c r1 where b: "body hk rk = (h1, c, r1)"
    by (cases "body hk rk")
  from body [OF Suc.prems(1) b] have e1: "extends hk h1" .
  with Suc.prems(1) have e: "extends h h1"
    by (rule extends_trans)
  from Suc.prems(2) b have l: "children_loop n body h1 r1 (acc @ [c]) = (cs, h', r')"
    by simp
  have st: "loop_state (Suc k) body hk rk = loop_state k body h1 r1" for k
    by (simp add: b)
  from Suc.IH [OF e l] have ih:
    "extends h1 h'" "length cs = length (acc @ [c]) + n" "take (length (acc @ [c])) cs = acc @ [c]"
    "loop_state n body h1 r1 = (h', r')"
    "\<forall>k<n. \<exists>ha ra hb rb. loop_state k body h1 r1 = (ha, ra) \<and>
               loop_state (Suc k) body h1 r1 = (hb, rb) \<and> extends h ha \<and> extends hb h' \<and>
               body ha ra = (hb, cs ! (length (acc @ [c]) + k), rb)"
    by blast+
  have 1: "extends hk h'"
    using e1 ih(1) by (rule extends_trans)
  have 2: "length cs = length acc + Suc n"
    using ih(2) by simp
  have t: "take (Suc (length acc)) cs = acc @ [c]"
    using ih(3) by simp
  have 3: "take (length acc) cs = acc"
  proof -
    have "take (length acc) (take (Suc (length acc)) cs) = take (length acc) (acc @ [c])"
      by (simp only: t)
    then show ?thesis by (simp add: min_def)
  qed
  have c: "cs ! length acc = c"
  proof -
    have "take (Suc (length acc)) cs ! length acc = (acc @ [c]) ! length acc"
      by (simp only: t)
    then show ?thesis by simp
  qed
  have 4: "loop_state (Suc n) body hk rk = (h', r')"
    unfolding st by (rule ih(4))
  have 5: "\<exists>ha ra hb rb. loop_state k body hk rk = (ha, ra) \<and>
               loop_state (Suc k) body hk rk = (hb, rb) \<and> extends h ha \<and> extends hb h' \<and>
               body ha ra = (hb, cs ! (length acc + k), rb)" if "k < Suc n" for k
  proof (cases k)
    case 0
    have "loop_state 0 body hk rk = (hk, rk)" "loop_state (Suc 0) body hk rk = (h1, r1)"
      by (simp_all add: b)
    with Suc.prems(1) ih(1) b c show ?thesis
      unfolding 0 by auto
  next
    case (Suc k')
    with that have "k' < n" by simp
    with ih(5) obtain ha ra hb rb where "loop_state k' body h1 r1 = (ha, ra)"
      "loop_state (Suc k') body h1 r1 = (hb, rb)" "extends h ha" "extends hb h'"
      "body ha ra = (hb, cs ! (length (acc @ [c]) + k'), rb)"
      by blast
    then show ?thesis
      unfolding Suc st by auto
  qed
  from 1 2 3 4 5 show ?case
    by blast
qed

lemma random_genomes_children_loop:
  "random_genomes n len h r acc = children_loop n (\<lambda>h r. Genome_random h len r) h r acc"
  by (induction n arbitrary: h r acc) (simp_all add: split_beta)

lemma Gene_random_valid: "valid_gene (fst (Gene_random r))"
proof -
  have b: "0 \<le> fst (random_random q) \<and> fst (random_random q) < 1" for q
    by (simp add: random_random_def)
  have k: "fst (random_randint 0 1 q) = 0 \<or> fst (random_randint 0 1 q) = 1" for q
    using random_randint_range [of 0 1 q] by (simp add: random_randint_def) presburger
  have i: "0 \<le> fst (random_randint 0 127 q) \<and> fst (random_randint 0 127 q) \<le> 127" for q
    using random_randint_range [of 0 127 q] by simp
  have w: "- 4 \<le> fst (random_uniform (- 4.0) 4.0 q) \<and> fst (random_uniform (- 4.0) 4.0 q) \<le> 4" for q
    using b [of q] by (simp add: random_uniform_def split_beta)
  show ?thesis
    unfolding Gene_random_def valid_gene_def Let_def split_beta
    using k i w by simp
qed

lemma Genome_random_loop_props:
  "\<exists>gs r'. Genome_random_loop n h genes r = (h @ gs, genes @ [length h..<length h + n], r') \<and>
      length gs = n \<and> list_all valid_gene gs"
proof (induction n arbitrary: h genes r)
  case 0
  show ?case by simp
next
  case (Suc n)
  let ?g = "fst (Gene_random r)" and ?r = "snd (Gene_random r)"
  from Suc.IH [of "h @ [?g]" "genes @ [length h]" ?r]
  obtain gs r' where
    l: "Genome_random_loop n (h @ [?g]) (genes @ [length h]) ?r =
        ((h @ [?g]) @ gs, (genes @ [length h]) @ [length (h @ [?g])..<length (h @ [?g]) + n], r')"
    and n: "length gs = n" and v: "list_all valid_gene gs"
    by blast
  have u: "[length h..<length h + Suc n] = length h # [length (h @ [?g])..<length (h @ [?g]) + n]"
    using upt_conv_Cons [of "length h" "length h + Suc n"] by (simp del: upt_Suc)
  have "Genome_random_loop (Suc n) h genes r = (h @ (?g # gs), genes @ [length h..<length h + Suc n], r')"
    unfolding u by (simp add: split_beta new_gene_def l del: upt_Suc)
  moreover have "length (?g # gs) = Suc n" "list_all valid_gene (?g # gs)"
    using n v Gene_random_valid by simp_all
  ultimately show ?case
    by blast
qed

lemma Genome_random_body:
  assumes "Genome_random ha len ra = (hb, c, rb)"
  shows "extends ha hb \<and> fresh_in ha hb c \<and> length c = nat len \<and> distinct c \<and>
         list_all valid_gene (genes_of hb c)"
proof -
  from Genome_random_loop_props [of "nat len" ha "[]" ra] assms
  obtain gs where hb: "hb = ha @ gs" and c: "c = [length ha..<length ha + nat len]"
    and n: "length gs = nat len" and v: "list_all valid_gene gs"
    by (auto simp add: Genome_random_def)
  have "genes_of hb c = gs"
    unfolding hb c using genes_of_fresh [of ha gs] n by simp
  with v hb c n show ?thesis
    by (auto simp add: fresh_in_iff)
qed

lemma asexual_child_body:
  assumes "asexual_child s parent ha ra = (hb, c, rb)" "valid_refs ha parent"
  shows "extends ha hb \<and> fresh_in ha hb c \<and>
    (\<exists>h1 c1. copy_genes ha parent = (h1, c1) \<and> genes_of h1 c1 = genes_of ha parent \<and>
       fresh_in ha h1 c1 \<and> Genome_mutate h1 c1 (mutation_rate s) ra = (hb, c, rb))"
proof -
  let ?h1 = "ha @ genes_of ha parent" and ?c1 = "[length ha..<length ha + length parent]"
  have cp: "copy_genes ha parent = (?h1, ?c1)"
    using assms(2) by (rule copy_genes_eq)
  have g: "genes_of ?h1 ?c1 = genes_of ha parent"
    using genes_of_fresh [of ha "genes_of ha parent"] by (simp add: genes_of_def)
  have f: "fresh_in ha ?h1 ?c1"
    by (simp add: fresh_in_iff genes_of_def)
  from assms(1) have m: "Genome_mutate ?h1 ?c1 (mutation_rate s) ra = (hb, c, rb)"
    by (simp add: asexual_child_def cp)
  have le: "length ha \<le> length ?h1"
    by simp
  note mf = Genome_mutate_fresh [OF m f le]
  have "extends ha hb"
  proof (rule extendsI)
    show "length ha \<le> length hb"
      using mf(1) by simp
    fix a assume "a < length ha"
    with mf(3) show "hb ! a = ha ! a"
      by (simp add: nth_append)
  qed
  with mf(2) cp g f m show ?thesis
    by blast
qed

lemma random_sample2_distinct:
  assumes "2 \<le> n" "random_sample2 n r = ((i, j), r1)"
  shows "i < n \<and> j < n \<and> i \<noteq> j"
proof -
  define k where "k = r 1 mod (n - 1)"
  have a: "r 0 mod n < n" and b: "k < n - 1"
    using assms(1) by (simp_all add: k_def)
  from assms(2) have i: "i = r 0 mod n"
    by (auto simp add: random_sample2_def Let_def)
  from assms(2) have j: "j = (if k < i then k else Suc k)"
    unfolding i k_def by (auto simp add: random_sample2_def Let_def)
  from a b i j show ?thesis
    by (cases "k < i") simp_all
qed

lemma Genome_crossover_props:
  assumes "valid_refs ha a" "valid_refs ha b" "Genome_crossover ha a b r = (h1, c1, r2)"
  shows "extends ha h1 \<and> fresh_in ha h1 c1 \<and> 1 \<le> length c1 \<and> length c1 \<le> 50 \<and>
     (\<exists>ca cb. ca = nat (fst (random_randint 0 (int (length a)) r)) \<and>
        cb = nat (fst (random_randint 0 (int (length b)) (rng_rest r))) \<and>
        ca \<le> length a \<and> cb \<le> length b \<and>
        genes_of h1 c1 =
          (if take ca a @ drop cb b = [] then [fst (Gene_random (rng_rest (rng_rest r)))]
           else take 50 (genes_of ha (take ca a @ drop cb b))))"
proof -
  define ca where "ca = nat (fst (random_randint 0 (int (length a)) r))"
  define cb where "cb = nat (fst (random_randint 0 (int (length b)) (rng_rest r)))"
  let ?sel = "take ca a @ drop cb b"
  have ca: "ca \<le> length a"
    using random_randint_range [of 0 "int (length a)" r] unfolding ca_def by linarith
  have cb: "cb \<le> length b"
    using random_randint_range [of 0 "int (length b)" "rng_rest r"] unfolding cb_def by linarith
  from Genome_crossover_cases [OF assms]
  have c: "if ?sel = []
         then h1 = ha @ [fst (Gene_random (rng_rest (rng_rest r)))] \<and> c1 = [length ha]
         else h1 = ha @ genes_of ha ?sel \<and> c1 = take 50 [length ha..<length ha + length ?sel]"
    unfolding ca_def cb_def .
  show ?thesis
  proof (cases "?sel = []")
    case True
    note c' = c [unfolded if_P [OF True]]
    have g0: "genes_of h1 c1 = [fst (Gene_random (rng_rest (rng_rest r)))]"
      using c' by (simp add: genes_of_def)
    have "genes_of h1 c1 =
          (if ?sel = [] then [fst (Gene_random (rng_rest (rng_rest r)))]
           else take 50 (genes_of ha ?sel))"
      unfolding if_P [OF True] by (rule g0)
    moreover have "extends ha h1" "fresh_in ha h1 c1" "1 \<le> length c1" "length c1 \<le> 50"
      using c' by (simp_all add: fresh_in_iff)
    ultimately show ?thesis
      using ca cb ca_def cb_def by blast
  next
    case False
    note c' = c [unfolded if_not_P [OF False]]
    define n where "n = length ?sel"
    have n: "0 < n"
      using False length_greater_0_conv [of ?sel] unfolding n_def by blast
    have ch: "c1 = take 50 [length ha..<length ha + n]"
      unfolding n_def by (rule conjunct2 [OF c'])
    have h1: "h1 = ha @ genes_of ha ?sel"
      by (rule conjunct1 [OF c'])
    have lh: "length h1 = length ha + n"
      unfolding n_def h1 by (simp add: genes_of_def)
    have le: "length (genes_of ha ?sel) = length ?sel"
      by (simp add: genes_of_def)
    have g0: "genes_of h1 c1 = take 50 (genes_of ha ?sel)"
      unfolding conjunct1 [OF c'] conjunct2 [OF c']
      using genes_of_fresh_take [of ha "genes_of ha ?sel" 50] unfolding le .
    have g: "genes_of h1 c1 =
          (if ?sel = [] then [fst (Gene_random (rng_rest (rng_rest r)))]
           else take 50 (genes_of ha ?sel))"
      unfolding if_not_P [OF False] by (rule g0)
    have e: "extends ha h1"
      unfolding h1 by simp
    have f: "fresh_in ha h1 c1"
      unfolding fresh_in_iff lh ch using take_upt_fresh(2) [of 50 "length ha" n] by blast
    have l: "1 \<le> length c1 \<and> length c1 \<le> 50"
      unfolding ch using n take_upt_fresh(3) [of 50 "length ha" n] by (simp add: min_def)
    from e f l g ca cb ca_def cb_def show ?thesis
      by blast
  qed
qed

lemma random_sample2_unique:
  assumes "i < n" "j < n" "i \<noteq> j"
  shows "fst (random_sample2 n r) = (i, j) \<longleftrightarrow>
         r 0 mod n = i \<and> r 1 mod (n - 1) = (if j < i then j else j - 1)"
  using assms by (auto simp add: random_sample2_def Let_def)

lemma sexual_child_body:
  assumes "sexual_child s survivors ha ra = (hb, c, rb)" "2 \<le> length survivors"
    "list_all (\<lambda>p. valid_refs ha (genome p)) survivors"
  shows "extends ha hb \<and> fresh_in ha hb c \<and>
    (\<exists>i j r1 h1 c1 r2. i < length survivors \<and> j < length survivors \<and> i \<noteq> j \<and>
       random_sample2 (length survivors) ra = ((i, j), r1) \<and>
       Genome_crossover ha (genome (survivors ! i)) (genome (survivors ! j)) r1 = (h1, c1, r2) \<and>
       Genome_mutate h1 c1 (mutation_rate s) r2 = (hb, c, rb))"
proof -
  obtain i j r1 where sm: "random_sample2 (length survivors) ra = ((i, j), r1)"
    by (cases "random_sample2 (length survivors) ra") auto
  from random_sample2_distinct [OF assms(2) sm] have ij: "i < length survivors" "j < length survivors" "i \<noteq> j"
    by blast+
  let ?a = "genome (survivors ! i)" and ?b = "genome (survivors ! j)"
  from assms(3) ij have va: "valid_refs ha ?a" and vb: "valid_refs ha ?b"
    by (simp_all add: list_all_length)
  obtain h1 c1 r2 where cr: "Genome_crossover ha ?a ?b r1 = (h1, c1, r2)"
    by (cases "Genome_crossover ha ?a ?b r1")
  from Genome_crossover_props [OF va vb cr] have e1: "extends ha h1" and f1: "fresh_in ha h1 c1"
    by blast+
  from assms(1) have m: "Genome_mutate h1 c1 (mutation_rate s) r2 = (hb, c, rb)"
    by (simp add: sexual_child_def sm cr)
  note mf = Genome_mutate_fresh [OF m f1 extends_length [OF e1]]
  have "extends ha hb"
  proof (rule extendsI)
    show "length ha \<le> length hb"
      using mf(1) extends_length [OF e1] by linarith
    fix a assume a: "a < length ha"
    with mf(3) have "hb ! a = h1 ! a"
      by blast
    with a e1 show "hb ! a = ha ! a"
      by (simp add: extends_nth)
  qed
  with mf(2) ij sm cr m show ?thesis
    by blast
qed

lemma fresh_in_mono:
  "fresh_in h1 h2 c \<Longrightarrow> length h \<le> length h1 \<Longrightarrow> length h2 \<le> length h3 \<Longrightarrow> fresh_in h h3 c"
  by (auto simp add: fresh_in_iff)

lemma fresh_in_valid_refs: "fresh_in ha hb c \<Longrightarrow> valid_refs hb c"
  by (simp add: fresh_in_iff valid_refs_def list_all_iff)

lemma reproduce_extinct:
  assumes "reproduce s [] h r = (children, h', r')"
  shows "length children = nat (population_size s) \<and> extends h h' \<and>
     list_all (fresh_in h h') children \<and>
     loop_state (length children) (\<lambda>h r. Genome_random h (genome_length s) r) h r = (h', r') \<and>
     (\<forall>k<length children. \<exists>hk rk hb rb.
         loop_state k (\<lambda>h r. Genome_random h (genome_length s) r) h r = (hk, rk) \<and>
         Genome_random hk (genome_length s) rk = (hb, children ! k, rb) \<and>
         loop_state (Suc k) (\<lambda>h r. Genome_random h (genome_length s) r) h r = (hb, rb) \<and>
         extends h hk \<and> extends hb h' \<and>
         length (children ! k) = nat (genome_length s) \<and> distinct (children ! k) \<and>
         list_all valid_gene (genes_of h' (children ! k)))"
proof -
  let ?n = "nat (population_size s)"
  let ?body = "\<lambda>h r. Genome_random h (genome_length s) r"
  from assms have l: "children_loop ?n ?body h r [] = (children, h', r')"
    by (simp add: reproduce_def random_genomes_children_loop)
  have b: "extends ha hb" if "extends h ha" "?body ha ra = (hb, c, rb)" for ha ra hb c rb
    using Genome_random_body [OF that(2)] by blast
  from children_loop_trace [of h ?body, OF b extends_refl l]
  have e: "extends h h'" and n: "length children = ?n"
    and f: "loop_state ?n ?body h r = (h', r')"
    and t: "\<forall>k<?n. \<exists>ha ra hb rb. loop_state k ?body h r = (ha, ra) \<and>
               loop_state (Suc k) ?body h r = (hb, rb) \<and> extends h ha \<and> extends hb h' \<and>
               ?body ha ra = (hb, children ! k, rb)"
    by simp_all
  have k: "fresh_in h h' (children ! k) \<and>
      (\<exists>hk rk hb rb. loop_state k ?body h r = (hk, rk) \<and>
         Genome_random hk (genome_length s) rk = (hb, children ! k, rb) \<and>
         loop_state (Suc k) ?body h r = (hb, rb) \<and>
         extends h hk \<and> extends hb h' \<and>
         length (children ! k) = nat (genome_length s) \<and> distinct (children ! k) \<and>
         list_all valid_gene (genes_of h' (children ! k)))"
    if "k < length children" for k
  proof -
    from that n t obtain ha ra hb rb where
      s0: "loop_state k ?body h r = (ha, ra)" and s1: "loop_state (Suc k) ?body h r = (hb, rb)" and
      a: "extends h ha" and b: "extends hb h'" and c: "?body ha ra = (hb, children ! k, rb)"
      by auto
    note p = Genome_random_body [OF c]
    from p have f: "fresh_in ha hb (children ! k)"
      by blast
    from fresh_in_mono [OF f extends_length [OF a] extends_length [OF b]]
    have 1: "fresh_in h h' (children ! k)" .
    from extends_genes_of [OF b fresh_in_valid_refs [OF f]] p
    have 2: "list_all valid_gene (genes_of h' (children ! k))"
      by simp
    from p have 3: "length (children ! k) = nat (genome_length s)" "distinct (children ! k)"
      by blast+
    from 1 2 3 s0 s1 a b c show ?thesis
      by blast
  qed
  from k have "list_all (fresh_in h h') children"
    unfolding list_all_length by blast
  with k e n f show ?thesis
    by simp
qed

lemma reproduce_asexual:
  assumes "reproduce s [p] h r = (children, h', r')" "valid_refs h (genome p)"
  shows "length children = nat (population_size s) \<and> extends h h' \<and>
     list_all (fresh_in h h') children \<and>
     loop_state (length children) (asexual_child s (genome p)) h r = (h', r') \<and>
     (\<forall>k<length children. \<exists>hk rk h1 c1 hb rb.
         loop_state k (asexual_child s (genome p)) h r = (hk, rk) \<and>
         copy_genes hk (genome p) = (h1, c1) \<and> genes_of h1 c1 = genes_of h (genome p) \<and>
         Genome_mutate h1 c1 (mutation_rate s) rk = (hb, children ! k, rb) \<and>
         loop_state (Suc k) (asexual_child s (genome p)) h r = (hb, rb) \<and>
         extends h hk \<and> extends hb h')"
proof -
  let ?n = "nat (population_size s)"
  let ?body = "asexual_child s (genome p)"
  from assms(1) have l: "children_loop ?n ?body h r [] = (children, h', r')"
    by (simp add: reproduce_def)
  have b: "extends ha hb" if "extends h ha" "?body ha ra = (hb, c, rb)" for ha ra hb c rb
    using asexual_child_body [OF that(2) extends_valid_refs [OF that(1) assms(2)]] by blast
  from children_loop_trace [of h ?body, OF b extends_refl l]
  have e: "extends h h'" and n: "length children = ?n"
    and f: "loop_state ?n ?body h r = (h', r')"
    and t: "\<forall>k<?n. \<exists>ha ra hb rb. loop_state k ?body h r = (ha, ra) \<and>
               loop_state (Suc k) ?body h r = (hb, rb) \<and> extends h ha \<and> extends hb h' \<and>
               ?body ha ra = (hb, children ! k, rb)"
    by simp_all
  have k: "fresh_in h h' (children ! k) \<and>
      (\<exists>hk rk h1 c1 hb rb. loop_state k ?body h r = (hk, rk) \<and>
         copy_genes hk (genome p) = (h1, c1) \<and> genes_of h1 c1 = genes_of h (genome p) \<and>
         Genome_mutate h1 c1 (mutation_rate s) rk = (hb, children ! k, rb) \<and>
         loop_state (Suc k) ?body h r = (hb, rb) \<and> extends h hk \<and> extends hb h')"
    if "k < length children" for k
  proof -
    from that n t obtain ha ra hb rb where
      s0: "loop_state k ?body h r = (ha, ra)" and s1: "loop_state (Suc k) ?body h r = (hb, rb)" and
      a: "extends h ha" and b: "extends hb h'" and c: "?body ha ra = (hb, children ! k, rb)"
      by auto
    from asexual_child_body [OF c extends_valid_refs [OF a assms(2)]]
    obtain h1 c1 where f: "fresh_in ha hb (children ! k)"
      and cp: "copy_genes ha (genome p) = (h1, c1)" and g: "genes_of h1 c1 = genes_of ha (genome p)"
      and m: "Genome_mutate h1 c1 (mutation_rate s) ra = (hb, children ! k, rb)"
      by blast
    from fresh_in_mono [OF f extends_length [OF a] extends_length [OF b]]
    have 1: "fresh_in h h' (children ! k)" .
    from g extends_genes_of [OF a assms(2)] have "genes_of h1 c1 = genes_of h (genome p)"
      by simp
    with 1 s0 s1 a b cp m show ?thesis
      by blast
  qed
  from k have "list_all (fresh_in h h') children"
    unfolding list_all_length by blast
  with k e n f show ?thesis
    by simp
qed

lemma list_all_valid_refs_extends:
  "extends h ha \<Longrightarrow> list_all (\<lambda>p. valid_refs h (genome p)) survivors \<Longrightarrow>
   list_all (\<lambda>p. valid_refs ha (genome p)) survivors"
  by (auto simp add: list_all_iff intro: extends_valid_refs)

lemma reproduce_sexual:
  assumes "reproduce s survivors h r = (children, h', r')" "2 \<le> length survivors"
    "list_all (\<lambda>p. valid_refs h (genome p)) survivors"
  shows "length children = nat (population_size s) \<and> extends h h' \<and>
     list_all (fresh_in h h') children \<and>
     loop_state (length children) (sexual_child s survivors) h r = (h', r') \<and>
     (\<forall>k<length children. \<exists>hk rk i j r1 h1 c1 r2 hb rb ca cb.
         loop_state k (sexual_child s survivors) h r = (hk, rk) \<and>
         random_sample2 (length survivors) rk = ((i, j), r1) \<and>
         i < length survivors \<and> j < length survivors \<and> i \<noteq> j \<and>
         Genome_crossover hk (genome (survivors ! i)) (genome (survivors ! j)) r1 = (h1, c1, r2) \<and>
         ca = nat (fst (random_randint 0 (int (length (genome (survivors ! i)))) r1)) \<and>
         cb = nat (fst (random_randint 0 (int (length (genome (survivors ! j)))) (rng_rest r1))) \<and>
         ca \<le> length (genome (survivors ! i)) \<and> cb \<le> length (genome (survivors ! j)) \<and>
         genes_of h1 c1 =
           (if take ca (genome (survivors ! i)) @ drop cb (genome (survivors ! j)) = []
            then [fst (Gene_random (rng_rest (rng_rest r1)))]
            else take 50 (genes_of h (take ca (genome (survivors ! i)) @
                                      drop cb (genome (survivors ! j))))) \<and>
         Genome_mutate h1 c1 (mutation_rate s) r2 = (hb, children ! k, rb) \<and>
         loop_state (Suc k) (sexual_child s survivors) h r = (hb, rb) \<and>
         extends h hk \<and> extends hb h')"
proof -
  let ?n = "nat (population_size s)"
  let ?body = "sexual_child s survivors"
  from assms(2) have ne: "length survivors \<noteq> 0" "length survivors \<noteq> 1"
    by linarith+
  from assms(1) have l: "children_loop ?n ?body h r [] = (children, h', r')"
    unfolding reproduce_def if_not_P [OF ne(1)] if_not_P [OF ne(2)] .
  have b: "extends ha hb" if "extends h ha" "?body ha ra = (hb, c, rb)" for ha ra hb c rb
    using sexual_child_body [OF that(2) assms(2) list_all_valid_refs_extends [OF that(1) assms(3)]]
    by blast
  from children_loop_trace [of h ?body, OF b extends_refl l]
  have e: "extends h h'" and n: "length children = ?n"
    and f: "loop_state ?n ?body h r = (h', r')"
    and t: "\<forall>k<?n. \<exists>ha ra hb rb. loop_state k ?body h r = (ha, ra) \<and>
               loop_state (Suc k) ?body h r = (hb, rb) \<and> extends h ha \<and> extends hb h' \<and>
               ?body ha ra = (hb, children ! k, rb)"
    by simp_all
  have k: "fresh_in h h' (children ! k) \<and>
     (\<exists>hk rk i j r1 h1 c1 r2 hb rb ca cb.
         loop_state k ?body h r = (hk, rk) \<and>
         random_sample2 (length survivors) rk = ((i, j), r1) \<and>
         i < length survivors \<and> j < length survivors \<and> i \<noteq> j \<and>
         Genome_crossover hk (genome (survivors ! i)) (genome (survivors ! j)) r1 = (h1, c1, r2) \<and>
         ca = nat (fst (random_randint 0 (int (length (genome (survivors ! i)))) r1)) \<and>
         cb = nat (fst (random_randint 0 (int (length (genome (survivors ! j)))) (rng_rest r1))) \<and>
         ca \<le> length (genome (survivors ! i)) \<and> cb \<le> length (genome (survivors ! j)) \<and>
         genes_of h1 c1 =
           (if take ca (genome (survivors ! i)) @ drop cb (genome (survivors ! j)) = []
            then [fst (Gene_random (rng_rest (rng_rest r1)))]
            else take 50 (genes_of h (take ca (genome (survivors ! i)) @
                                      drop cb (genome (survivors ! j))))) \<and>
         Genome_mutate h1 c1 (mutation_rate s) r2 = (hb, children ! k, rb) \<and>
         loop_state (Suc k) ?body h r = (hb, rb) \<and>
         extends h hk \<and> extends hb h')"
    if "k < length children" for k
  proof -
    from that n t obtain ha ra hb rb where
      s0: "loop_state k ?body h r = (ha, ra)" and s1: "loop_state (Suc k) ?body h r = (hb, rb)" and
      a: "extends h ha" and b: "extends hb h'" and c: "?body ha ra = (hb, children ! k, rb)"
      by auto
    note va = list_all_valid_refs_extends [OF a assms(3)]
    from sexual_child_body [OF c assms(2) va]
    obtain i j r1 h1 c1 r2 where f: "fresh_in ha hb (children ! k)"
      and ij: "i < length survivors" "j < length survivors" "i \<noteq> j"
      and sm: "random_sample2 (length survivors) ra = ((i, j), r1)"
      and cr: "Genome_crossover ha (genome (survivors ! i)) (genome (survivors ! j)) r1 = (h1, c1, r2)"
      and m: "Genome_mutate h1 c1 (mutation_rate s) r2 = (hb, children ! k, rb)"
      by blast
    let ?a = "genome (survivors ! i)" and ?b = "genome (survivors ! j)"
    from assms(3) ij have v: "valid_refs h ?a" "valid_refs h ?b"
      by (simp_all add: list_all_length)
    from va ij have v': "valid_refs ha ?a" "valid_refs ha ?b"
      by (simp_all add: list_all_length)
    from Genome_crossover_props [OF v' cr] obtain ca cb where
      cd: "ca = nat (fst (random_randint 0 (int (length ?a)) r1))"
          "cb = nat (fst (random_randint 0 (int (length ?b)) (rng_rest r1)))" and
      cc: "ca \<le> length ?a" "cb \<le> length ?b" and
      g: "genes_of h1 c1 =
          (if take ca ?a @ drop cb ?b = [] then [fst (Gene_random (rng_rest (rng_rest r1)))]
           else take 50 (genes_of ha (take ca ?a @ drop cb ?b)))"
      by blast
    have "valid_refs h (take ca ?a @ drop cb ?b)"
      using valid_refs_take_drop(1) [OF v(1), of ca] valid_refs_take_drop(2) [OF v(2), of cb]
      by (simp add: valid_refs_def)
    from extends_genes_of [OF a this] g
    have g': "genes_of h1 c1 =
          (if take ca ?a @ drop cb ?b = [] then [fst (Gene_random (rng_rest (rng_rest r1)))]
           else take 50 (genes_of h (take ca ?a @ drop cb ?b)))"
      by simp
    from fresh_in_mono [OF f extends_length [OF a] extends_length [OF b]]
    have 1: "fresh_in h h' (children ! k)" .
    from 1 s0 s1 a b ij sm cr cd cc g' m show ?thesis
      by blast
  qed
  from k have "list_all (fresh_in h h') children"
    unfolding list_all_length by blast
  with k e n f show ?thesis
    by simp
qed

subsection \<open>Claims about reproduction\<close>

text \<open>
  C9. \<open>reproduce(survivors)\<close> returns (it has no raising or unbounded step) exactly
  \<open>population_size\<close> genomes, all of them made of gene objects created by the call, and leaves
  every gene that existed before, the survivors' among them, as it was. The children are made
  one after the other: child \<open>k\<close> is made from the store and the generator that the first \<open>k\<close>
  iterations left (\<open>loop_state k\<close>, which is the store and generator of the call for \<open>k = 0\<close>),
  and leaves those of \<open>loop_state (k + 1)\<close>; the call returns the last of them.

  \<^item> With no survivor, child \<open>k\<close> is the result of \<open>Genome.random(genome_length)\<close> in that state:
    \<open>genome_length\<close> new random genes, none of them a copy.
  \<^item> With one survivor, child \<open>k\<close> is \<open>Genome.mutate\<close> applied once, in that state, to a
    gene-by-gene copy of the survivor's genome, the copy reading as the survivor's genome did
    on entry.
  \<^item> With two or more survivors, the parents of child \<open>k\<close> are the two survivors at the
    positions that \<open>random.sample(survivors, 2)\<close> draws in that state; the positions are
    distinct. The sampling is uniform in this sense: each of the \<open>n * (n - 1)\<close> ordered pairs of
    distinct positions is drawn for exactly one pair of residues of the two raw draws (modulo
    \<open>n\<close> and modulo \<open>n - 1\<close>). The child is \<open>Genome.mutate\<close> applied once to the
    \<open>Genome.crossover\<close> of the two parents; the crossover result reads as unmodified parent
    genes (the first parent's genes before its cut point, the second's from its cut point on,
    at most 50, or one random gene), so crossover itself mutates nothing.
\<close>

theorem reproduce_children:
  assumes "reproduce s survivors h r = (children, h', r')"
    and "0 \<le> population_size s"
    and "list_all (\<lambda>p. valid_refs h (genome p)) survivors"
  shows "int (length children) = population_size s \<and>
     extends h h' \<and>
     list_all (\<lambda>p. genes_of h' (genome p) = genes_of h (genome p)) survivors \<and>
     list_all (fresh_in h h') children \<and>
     (survivors = [] \<longrightarrow>
        loop_state (length children) (\<lambda>h r. Genome_random h (genome_length s) r) h r = (h', r') \<and>
        (\<forall>k<length children. \<exists>hk rk hb rb.
           loop_state k (\<lambda>h r. Genome_random h (genome_length s) r) h r = (hk, rk) \<and>
           Genome_random hk (genome_length s) rk = (hb, children ! k, rb) \<and>
           loop_state (Suc k) (\<lambda>h r. Genome_random h (genome_length s) r) h r = (hb, rb) \<and>
           extends h hk \<and> extends hb h' \<and>
           length (children ! k) = nat (genome_length s) \<and> distinct (children ! k) \<and>
           list_all valid_gene (genes_of h' (children ! k)))) \<and>
     (length survivors = 1 \<longrightarrow>
        loop_state (length children) (asexual_child s (genome (survivors ! 0))) h r = (h', r') \<and>
        (\<forall>k<length children. \<exists>hk rk h1 c1 hb rb.
           loop_state k (asexual_child s (genome (survivors ! 0))) h r = (hk, rk) \<and>
           copy_genes hk (genome (survivors ! 0)) = (h1, c1) \<and>
           genes_of h1 c1 = genes_of h (genome (survivors ! 0)) \<and>
           Genome_mutate h1 c1 (mutation_rate s) rk = (hb, children ! k, rb) \<and>
           loop_state (Suc k) (asexual_child s (genome (survivors ! 0))) h r = (hb, rb) \<and>
           extends h hk \<and> extends hb h')) \<and>
     (2 \<le> length survivors \<longrightarrow>
        (\<forall>i j q. i < length survivors \<and> j < length survivors \<and> i \<noteq> j \<longrightarrow>
           (fst (random_sample2 (length survivors) q) = (i, j) \<longleftrightarrow>
            q 0 mod length survivors = i \<and>
            q 1 mod (length survivors - 1) = (if j < i then j else j - 1))) \<and>
        loop_state (length children) (sexual_child s survivors) h r = (h', r') \<and>
        (\<forall>k<length children. \<exists>hk rk i j r1 h1 c1 r2 hb rb ca cb.
           loop_state k (sexual_child s survivors) h r = (hk, rk) \<and>
           random_sample2 (length survivors) rk = ((i, j), r1) \<and>
           i < length survivors \<and> j < length survivors \<and> i \<noteq> j \<and>
           Genome_crossover hk (genome (survivors ! i)) (genome (survivors ! j)) r1 = (h1, c1, r2) \<and>
           ca = nat (fst (random_randint 0 (int (length (genome (survivors ! i)))) r1)) \<and>
           cb = nat (fst (random_randint 0 (int (length (genome (survivors ! j)))) (rng_rest r1))) \<and>
           ca \<le> length (genome (survivors ! i)) \<and> cb \<le> length (genome (survivors ! j)) \<and>
           genes_of h1 c1 =
             (if take ca (genome (survivors ! i)) @ drop cb (genome (survivors ! j)) = []
              then [fst (Gene_random (rng_rest (rng_rest r1)))]
              else take 50 (genes_of h (take ca (genome (survivors ! i)) @
                                        drop cb (genome (survivors ! j))))) \<and>
           Genome_mutate h1 c1 (mutation_rate s) r2 = (hb, children ! k, rb) \<and>
           loop_state (Suc k) (sexual_child s survivors) h r = (hb, rb) \<and>
           extends h hk \<and> extends hb h'))"
proof -
  have "survivors = [] \<or> (\<exists>p. survivors = [p]) \<or> 2 \<le> length survivors"
  proof (cases survivors)
    case Nil
    then show ?thesis by simp
  next
    case (Cons p ps)
    then show ?thesis by (cases ps) simp_all
  qed
  then consider "survivors = []" | p where "survivors = [p]" | "2 \<le> length survivors"
    by blast
  then have main: "length children = nat (population_size s) \<and> extends h h' \<and>
     list_all (fresh_in h h') children \<and>
     (survivors = [] \<longrightarrow>
        loop_state (length children) (\<lambda>h r. Genome_random h (genome_length s) r) h r = (h', r') \<and>
        (\<forall>k<length children. \<exists>hk rk hb rb.
           loop_state k (\<lambda>h r. Genome_random h (genome_length s) r) h r = (hk, rk) \<and>
           Genome_random hk (genome_length s) rk = (hb, children ! k, rb) \<and>
           loop_state (Suc k) (\<lambda>h r. Genome_random h (genome_length s) r) h r = (hb, rb) \<and>
           extends h hk \<and> extends hb h' \<and>
           length (children ! k) = nat (genome_length s) \<and> distinct (children ! k) \<and>
           list_all valid_gene (genes_of h' (children ! k)))) \<and>
     (length survivors = 1 \<longrightarrow>
        loop_state (length children) (asexual_child s (genome (survivors ! 0))) h r = (h', r') \<and>
        (\<forall>k<length children. \<exists>hk rk h1 c1 hb rb.
           loop_state k (asexual_child s (genome (survivors ! 0))) h r = (hk, rk) \<and>
           copy_genes hk (genome (survivors ! 0)) = (h1, c1) \<and>
           genes_of h1 c1 = genes_of h (genome (survivors ! 0)) \<and>
           Genome_mutate h1 c1 (mutation_rate s) rk = (hb, children ! k, rb) \<and>
           loop_state (Suc k) (asexual_child s (genome (survivors ! 0))) h r = (hb, rb) \<and>
           extends h hk \<and> extends hb h')) \<and>
     (2 \<le> length survivors \<longrightarrow>
        loop_state (length children) (sexual_child s survivors) h r = (h', r') \<and>
        (\<forall>k<length children. \<exists>hk rk i j r1 h1 c1 r2 hb rb ca cb.
           loop_state k (sexual_child s survivors) h r = (hk, rk) \<and>
           random_sample2 (length survivors) rk = ((i, j), r1) \<and>
           i < length survivors \<and> j < length survivors \<and> i \<noteq> j \<and>
           Genome_crossover hk (genome (survivors ! i)) (genome (survivors ! j)) r1 = (h1, c1, r2) \<and>
           ca = nat (fst (random_randint 0 (int (length (genome (survivors ! i)))) r1)) \<and>
           cb = nat (fst (random_randint 0 (int (length (genome (survivors ! j)))) (rng_rest r1))) \<and>
           ca \<le> length (genome (survivors ! i)) \<and> cb \<le> length (genome (survivors ! j)) \<and>
           genes_of h1 c1 =
             (if take ca (genome (survivors ! i)) @ drop cb (genome (survivors ! j)) = []
              then [fst (Gene_random (rng_rest (rng_rest r1)))]
              else take 50 (genes_of h (take ca (genome (survivors ! i)) @
                                        drop cb (genome (survivors ! j))))) \<and>
           Genome_mutate h1 c1 (mutation_rate s) r2 = (hb, children ! k, rb) \<and>
           loop_state (Suc k) (sexual_child s survivors) h r = (hb, rb) \<and>
           extends h hk \<and> extends hb h'))"
  proof cases
    case 1
    then have n: "length survivors \<noteq> 1" "\<not> 2 \<le> length survivors"
      by simp_all
    from reproduce_extinct [OF assms(1) [unfolded 1]] n show ?thesis
      by blast
  next
    case 2
    with assms(3) have v: "valid_refs h (genome p)"
      by simp
    have n: "survivors \<noteq> []" "\<not> 2 \<le> length survivors" "genome (survivors ! 0) = genome p"
      using 2 by simp_all
    from reproduce_asexual [OF assms(1) [unfolded 2] v] n show ?thesis
      unfolding n(3) by blast
  next
    case 3
    then have "survivors \<noteq> []" "length survivors \<noteq> 1"
      by auto
    with reproduce_sexual [OF assms(1) 3 assms(3)] show ?thesis
      by blast
  qed
  then have e: "extends h h'"
    by blast
  have "list_all (\<lambda>p. genes_of h' (genome p) = genes_of h (genome p)) survivors"
    using assms(3) extends_genes_of [OF e] by (simp add: list_all_iff)
  moreover have "int (length children) = population_size s"
    using main assms(2) by simp
  moreover have "\<forall>i j q. i < length survivors \<and> j < length survivors \<and> i \<noteq> j \<longrightarrow>
           (fst (random_sample2 (length survivors) q) = (i, j) \<longleftrightarrow>
            q 0 mod length survivors = i \<and>
            q 1 mod (length survivors - 1) = (if j < i then j else j - 1))"
    using random_sample2_unique by blast
  ultimately show ?thesis
    using main by blast
qed

theorem reproduce_children_witness:
  "0 \<le> population_size (example_world 8 8 4 RIGHT_HALF) \<and>
   list_all (\<lambda>p. valid_refs
       [\<lparr>source_type = 1, source_id = 5, sink_type = 0, sink_id = 127, weight = 1\<rparr>,
        \<lparr>source_type = 0, source_id = 3, sink_type = 1, sink_id = 2, weight = - 2\<rparr>] (genome p))
     [(example_creature 6 3)\<lparr>genome := [0]\<rparr>, (example_creature 7 7)\<lparr>genome := [1]\<rparr>] \<and>
   random_sample2 2 (draws [1, 0]) = ((1, 0), draws []) \<and>
   reproduce (example_world 8 8 4 RIGHT_HALF)
     [(example_creature 6 3)\<lparr>genome := [0]\<rparr>, (example_creature 7 7)\<lparr>genome := [1]\<rparr>]
     [\<lparr>source_type = 1, source_id = 5, sink_type = 0, sink_id = 127, weight = 1\<rparr>,
      \<lparr>source_type = 0, source_id = 3, sink_type = 1, sink_id = 2, weight = - 2\<rparr>] (draws [1, 0]) =
     ([[2]],
      [\<lparr>source_type = 1, source_id = 5, sink_type = 0, sink_id = 127, weight = 1\<rparr>,
       \<lparr>source_type = 0, source_id = 3, sink_type = 1, sink_id = 2, weight = - 2\<rparr>,
       \<lparr>source_type = 1, source_id = 5, sink_type = 0, sink_id = 127, weight = 1\<rparr>], draws []) \<and>
   int (length [[2::nat]]) = population_size (example_world 8 8 4 RIGHT_HALF) \<and>
   fresh_in
      [\<lparr>source_type = 1, source_id = 5, sink_type = 0, sink_id = 127, weight = 1\<rparr>,
       \<lparr>source_type = 0, source_id = 3, sink_type = 1, sink_id = 2, weight = - 2\<rparr>]
      [\<lparr>source_type = 1, source_id = 5, sink_type = 0, sink_id = 127, weight = 1\<rparr>,
       \<lparr>source_type = 0, source_id = 3, sink_type = 1, sink_id = 2, weight = - 2\<rparr>,
       \<lparr>source_type = 1, source_id = 5, sink_type = 0, sink_id = 127, weight = 1\<rparr>] [2] \<and>
   loop_state 1 (sexual_child (example_world 8 8 4 RIGHT_HALF)
       [(example_creature 6 3)\<lparr>genome := [0]\<rparr>, (example_creature 7 7)\<lparr>genome := [1]\<rparr>])
     [\<lparr>source_type = 1, source_id = 5, sink_type = 0, sink_id = 127, weight = 1\<rparr>,
      \<lparr>source_type = 0, source_id = 3, sink_type = 1, sink_id = 2, weight = - 2\<rparr>] (draws [1, 0]) =
     ([\<lparr>source_type = 1, source_id = 5, sink_type = 0, sink_id = 127, weight = 1\<rparr>,
       \<lparr>source_type = 0, source_id = 3, sink_type = 1, sink_id = 2, weight = - 2\<rparr>,
       \<lparr>source_type = 1, source_id = 5, sink_type = 0, sink_id = 127, weight = 1\<rparr>], draws [])"
proof -
  let ?g0 = "\<lparr>source_type = 1, source_id = 5, sink_type = 0, sink_id = 127, weight = 1\<rparr>"
  let ?g1 = "\<lparr>source_type = 0, source_id = 3, sink_type = 1, sink_id = 2, weight = - 2\<rparr>"
  let ?w = "example_world 8 8 4 RIGHT_HALF"
  let ?sv = "[(example_creature 6 3)\<lparr>genome := [0]\<rparr>, (example_creature 7 7)\<lparr>genome := [1]\<rparr>]"
  have 1: "0 \<le> population_size ?w"
    by (simp add: example_world_def)
  have 2: "list_all (\<lambda>p. valid_refs [?g0, ?g1] (genome p)) ?sv"
    by (simp add: valid_refs_def)
  have 0: "random_sample2 2 (draws [1, 0]) = ((1, 0), draws [])"
    by (simp add: random_sample2_def)
  have z: "random_sample2 (Suc (Suc 0)) (draws [Suc 0, 0]) = ((Suc 0, 0), draws [])"
    by (simp add: random_sample2_def)
  have 3: "reproduce ?w ?sv [?g0, ?g1] (draws [1, 0]) = ([[2]], [?g0, ?g1, ?g0], draws [])"
    by (simp add: reproduce_def example_world_def sexual_child_def z
        Genome_crossover_def random_randint_def Gene_copy_def new_gene_def Genome_mutate_def
        random_random_def Let_def)
  have 4: "2 \<le> length ?sv"
    by simp
  from reproduce_children [OF 3 1 2] 4
  have "int (length [[2::nat]]) = population_size ?w" and "list_all (fresh_in [?g0, ?g1] [?g0, ?g1, ?g0]) [[2]]"
    and "loop_state (length [[2::nat]]) (sexual_child ?w ?sv) [?g0, ?g1] (draws [1, 0]) = ([?g0, ?g1, ?g0], draws [])"
    by blast+
  with 0 1 2 3 show ?thesis
    by simp
qed
section \<open>The engine\<close>

subsection \<open>Nothing kills a creature\<close>

text \<open>
  No operation of the engine assigns \<^verbatim>\<open>alive\<close> or adds to \<^verbatim>\<open>kill_count\<close>: the steps of a
  creature keep its flag, spawning creates creatures alive and resets the counter to 0, and
  the record of a generation copies the counter.
\<close>

lemma bind_err_Inr:
  "bind_err m f = Inr v \<longleftrightarrow> (\<exists>u. m = Inr u \<and> f u = Inr v)"
  by (cases m) (simp_all add: bind_err_def)

lemma Individual_init_alive:
  "Individual_init h g x y = Inr indiv \<Longrightarrow> alive indiv"
  by (auto simp add: Individual_init_def bind_err_Inr)

lemma bind_err_InrE:
  assumes "bind_err m f = Inr v"
  obtains u where "m = Inr u" "f u = Inr v"
  using assms by (auto simp add: bind_err_Inr)

lemma if_Inr_alive:
  assumes "(if c then Inr (a, x) else Inr (b, y)) = Inr (s', z)" "alive a = k" "alive b = k"
  shows "alive s' = k"
  using assms by (cases c) simp_all

lemma execute_actions_alive:
  assumes "execute_actions self action_outputs g r = Inr (self', g', r')"
  shows "alive self' = alive self"
  using assms unfolding execute_actions_def Let_def split_beta
  apply (elim bind_err_InrE)
  apply (erule if_Inr_alive)
   apply simp_all
  done

lemma take_step_alive:
  assumes "take_step self g step spg r = Inr (self', g', r')"
  shows "alive self' = alive self"
proof (cases "alive self")
  case False
  with assms show ?thesis
    by (simp add: take_step_def)
next
  case True
  with assms obtain sensors r1 action_outputs brain' where
    "execute_actions (self\<lparr>brain := brain'\<rparr>) action_outputs g r1 = Inr (self', g', r')"
    by (auto simp add: take_step_def bind_err_Inr)
  from execute_actions_alive [OF this] show ?thesis
    by simp
qed

lemma step_individuals_alive:
  "step_individuals inds g step spg r = Inr (inds', g', r') \<Longrightarrow>
     list_all alive inds \<Longrightarrow> list_all alive inds' \<and> length inds' = length inds"
proof (induction inds arbitrary: g r inds' g' r')
  case Nil
  then show ?case by simp
next
  case (Cons indiv rest)
  from Cons.prems(2) have a: "alive indiv" and ar: "list_all alive rest"
    by simp_all
  from Cons.prems(1) a obtain indiv' g1 r1 rest' where
    t: "take_step indiv g step spg r = Inr (indiv', g1, r1)" and
    s: "step_individuals rest g1 step spg r1 = Inr (rest', g', r')" and
    i: "inds' = indiv' # rest'"
    by (auto simp add: bind_err_Inr)
  from take_step_alive [OF t] a Cons.IH [OF s ar] i show ?case
    by simp
qed


lemma run_step_no_kills:
  assumes "run_step s r = Inr (s', r')" "no_kills s"
  shows "no_kills s'"
proof -
  from assms(1) obtain inds' g' where
    st: "step_individuals (individuals s) (grid s) (current_step s) (steps_per_gen s) r = Inr (inds', g', r')"
    and s': "s' = s\<lparr>individuals := inds', grid := g', current_step := current_step s + 1\<rparr>"
    by (auto simp add: run_step_def bind_err_Inr)
  from assms(2) have "list_all alive (individuals s)"
    by (simp add: no_kills_def)
  from step_individuals_alive [OF st this] assms(2) s' show ?thesis
    by (simp add: no_kills_def)
qed

lemma run_steps_no_kills:
  "run_steps n s r = Inr (s', r') \<Longrightarrow> no_kills s \<Longrightarrow> no_kills s'"
proof (induction n arbitrary: s r)
  case 0
  then show ?case by simp
next
  case (Suc n)
  from Suc.prems(1) obtain s1 r1 where
    a: "run_step s r = Inr (s1, r1)" and b: "run_steps n s1 r1 = Inr (s', r')"
    by (auto simp add: bind_err_Inr)
  from Suc.IH [OF b run_step_no_kills [OF a Suc.prems(2)]] show ?case .
qed

lemma run_all_steps_no_kills:
  "run_all_steps s r = Inr (s', r') \<Longrightarrow> no_kills s \<Longrightarrow> no_kills s'"
  unfolding run_all_steps_def by (rule run_steps_no_kills)

lemma spawn_loop_props:
  "spawn_loop s gs i hp r = Some (Inr (s', r')) \<Longrightarrow> list_all alive (individuals s) \<Longrightarrow>
     list_all alive (individuals s') \<and> kill_count s' = kill_count s \<and> history s' = history s \<and>
     length (individuals s') = length (individuals s) + length gs"
proof (induction gs arbitrary: s i r)
  case Nil
  then show ?case by simp
next
  case (Cons g gs)
  from Cons.prems(1) obtain x y r1 indiv where
    l: "random_empty_location s r = Some (Inr ((x, y), r1))" and
    i: "Individual_init hp g x y = Inr indiv" and
    n: "spawn_loop (s\<lparr>individuals := individuals s @ [indiv], grid := Grid_set (grid s) x y i\<rparr>)
          gs (i + 1) hp r1 = Some (Inr (s', r'))"
    by (auto split: option.splits sum.splits prod.splits)
  have "list_all alive (individuals (s\<lparr>individuals := individuals s @ [indiv],
      grid := Grid_set (grid s) x y i\<rparr>))"
    using Cons.prems(2) Individual_init_alive [OF i] by simp
  from Cons.IH [OF n this] show ?case
    by simp
qed

lemma spawn_generation_no_kills:
  assumes "spawn_generation s genomes hp r = Some (Inr (s', hp', r'))"
    "list_all (\<lambda>st. stat_kill_count st = 0) (history s)"
  shows "no_kills s'"
proof -
  let ?s1 = "s\<lparr>grid := Grid_clear (grid s), individuals := [], current_step := 0, kill_count := 0\<rparr>"
  from assms(1) obtain gs h1 r1 r2 where
    "spawn_loop ?s1 gs 0 h1 r1 = Some (Inr (s', r2))"
    unfolding spawn_generation_def Let_def
    by (auto split: option.splits sum.splits prod.splits)
  from spawn_loop_props [OF this] assms(2) show ?thesis
    by (simp add: no_kills_def)
qed

lemma run_one_generation_no_kills:
  assumes "run_one_generation s hp r = Some (Inr (st, s', hp', r'))" "no_kills s"
  shows "no_kills s' \<and> stat_kill_count st = 0"
proof -
  from assms(1) obtain s1 r1 where a: "run_all_steps s r = Inr (s1, r1)"
    unfolding run_one_generation_def by (auto split: sum.splits)
  from run_all_steps_no_kills [OF a assms(2)] have n1: "no_kills s1" .
  have "\<exists>s3 gs h1 r2. stat_kill_count st = kill_count s1 \<and> history s3 = history s1 @ [st] \<and>
      spawn_generation s3 (Some gs) h1 r2 = Some (Inr (s', hp', r'))"
  proof -
    let ?surv = "apply_selection s1"
    from assms(1) a obtain rate where
      rate: "py_truediv (of_int (int (length ?surv))) (of_int (population_size s1)) = Inr rate"
      unfolding run_one_generation_def Let_def by (auto split: sum.splits)
    define st0 where "st0 = \<lparr>stat_generation = generation s1, stat_survivors = int (length ?surv),
        stat_survival_rate = rate, stat_kill_count = kill_count s1,
        stat_avg_genome_length =
          (if ?surv \<noteq> [] then of_nat (sum_list (map (\<lambda>i. length (genome i)) ?surv))
              / of_nat (length ?surv) else 0.0)\<rparr>"
    define s2 where "s2 = s1\<lparr>history := history s1 @ [st0]\<rparr>"
    obtain gs h1 r2 where rp: "reproduce s2 ?surv hp r1 = (gs, h1, r2)"
      by (cases "reproduce s2 ?surv hp r1")
    define s3 where "s3 = s2\<lparr>generation := generation s2 + 1\<rparr>"
    have "run_one_generation s hp r =
        (case spawn_generation s3 (Some gs) h1 r2 of
           None \<Rightarrow> None
         | Some (Inl e) \<Rightarrow> Some (Inl e)
         | Some (Inr (s4, h2, r3)) \<Rightarrow> Some (Inr (st0, s4, h2, r3)))"
      unfolding run_one_generation_def Let_def a sum.case prod.case rate
      unfolding st0_def [symmetric] s2_def [symmetric] rp prod.case s3_def [symmetric]
      by (rule refl)
    with assms(1) have "st = st0" "spawn_generation s3 (Some gs) h1 r2 = Some (Inr (s', hp', r'))"
      by (auto split: option.splits sum.splits)
    moreover have "stat_kill_count st0 = kill_count s1" "history s3 = history s1 @ [st0]"
      by (simp_all add: st0_def s3_def s2_def)
    ultimately show ?thesis
      by blast
  qed
  then obtain s3 gs h1 r2 where
    st: "stat_kill_count st = kill_count s1" and
    h3: "history s3 = history s1 @ [st]" and
    sp: "spawn_generation s3 (Some gs) h1 r2 = Some (Inr (s', hp', r'))"
    by blast
  from n1 st have k: "stat_kill_count st = 0"
    by (simp add: no_kills_def)
  with n1 h3 have "list_all (\<lambda>st. stat_kill_count st = 0) (history s3)"
    by (simp add: no_kills_def)
  from spawn_generation_no_kills [OF sp this] k show ?thesis
    by simp
qed

lemma run_generations_no_kills:
  "run_generations n s hp r = Some (Inr (s', hp', r')) \<Longrightarrow> no_kills s \<Longrightarrow> no_kills s'"
proof (induction n arbitrary: s hp r)
  case 0
  then show ?case by simp
next
  case (Suc n)
  from Suc.prems(1) obtain st s1 h1 r1 where
    a: "run_one_generation s hp r = Some (Inr (st, s1, h1, r1))" and
    b: "run_generations n s1 h1 r1 = Some (Inr (s', hp', r'))"
    by (auto split: option.splits sum.splits prod.splits)
  from run_one_generation_no_kills [OF a Suc.prems(2)] have "no_kills s1"
    by blast
  from Suc.IH [OF b this] show ?case .
qed

lemma Simulation_init_no_kills:
  "Simulation_init w h p gl k spg mr sel = Inr s \<Longrightarrow> no_kills s"
  by (auto simp add: Simulation_init_def bind_err_Inr no_kills_def)

lemma reachable_no_kills: "reachable s \<Longrightarrow> no_kills s"
proof (induction rule: reachable.induct)
  case (init w h p gl k spg mr sel s)
  then show ?case by (rule Simulation_init_no_kills)
next
  case (spawn s genomes hp r s' hp' r')
  then show ?case
    using spawn_generation_no_kills by (simp add: no_kills_def)
next
  case (step s r s' r')
  then show ?case by (simp add: run_step_no_kills)
next
  case (all_steps s r s' r')
  then show ?case by (simp add: run_all_steps_no_kills)
next
  case (one_generation s hp r st s' hp' r')
  then show ?case using run_one_generation_no_kills by blast
next
  case (generations s n hp r s' hp' r')
  then show ?case using run_generations_no_kills by (simp add: run_def)
qed

text \<open>
  A world of 8 by 8 cells with one creature, spawned at \<open>(0, 0)\<close> from a genome of one gene,
  by an engine built with the internal-neuron count \<open>k\<close>.
\<close>

lemma Simulation_init_example:
  "Simulation_init 8 8 1 1 k 1 0 RIGHT_HALF = Inr (example_world 8 8 k RIGHT_HALF)"
  by (simp add: Simulation_init_def Grid_init_def bind_err_def example_world_def)

lemma random_empty_location_example:
  "random_empty_location
     ((example_world 8 8 k RIGHT_HALF)\<lparr>grid := Grid_clear (grid (example_world 8 8 k RIGHT_HALF)),
        individuals := [], current_step := 0, kill_count := 0\<rparr>) (draws []) =
   Some (Inr ((0, 0), draws []))"
  by (subst random_empty_location.simps)
    (simp add: example_world_def random_randint_def is_occupied_def is_barrier_def Grid_clear_def)

lemma Individual_init_example:
  "Individual_init [\<lparr>source_type = 0, source_id = 3, sink_type = 0, sink_id = 7, weight = 1\<rparr>] [0] 0 0 =
     Inr \<lparr>genome = [0], pos_x = 0, pos_y = 0,
          brain = \<lparr>num_sensors = 12, num_actions = 5, num_internal = 4,
                   connections = [(0, 3, 0, 3, 1)], neuron_outputs = range_dict 4 0\<rparr>,
          alive = True, last_dx = 0, last_dy = 0, responsiveness = 0.5\<rparr>"
  by (simp add: Individual_init_def bind_err_def Brain_init_def genes_of_def py_mod_def
      NUM_SENSORS_def NUM_ACTIONS_def NUM_INTERNAL_def)

lemma spawn_example:
  "spawn_generation (example_world 8 8 k RIGHT_HALF) (Some [[0]])
     [\<lparr>source_type = 0, source_id = 3, sink_type = 0, sink_id = 7, weight = 1\<rparr>] (draws []) =
   Some (Inr ((example_world 8 8 k RIGHT_HALF)
       \<lparr>grid := Grid_set (Grid_clear (grid (example_world 8 8 k RIGHT_HALF))) 0 0 0,
        individuals := [\<lparr>genome = [0], pos_x = 0, pos_y = 0,
          brain = \<lparr>num_sensors = 12, num_actions = 5, num_internal = 4,
                   connections = [(0, 3, 0, 3, 1)], neuron_outputs = range_dict 4 0\<rparr>,
          alive = True, last_dx = 0, last_dy = 0, responsiveness = 0.5\<rparr>]\<rparr>,
     [\<lparr>source_type = 0, source_id = 3, sink_type = 0, sink_id = 7, weight = 1\<rparr>], draws []))"
  unfolding spawn_generation_def Let_def
  by (simp add: random_empty_location_example Individual_init_example) (simp add: example_world_def)

subsection \<open>Claims about the engine\<close>

text \<open>
  C10. In every state the engine can reach, every creature of the population is alive, the
  kill counter is 0 and every record of the history reports 0 kills. \<open>apply_selection\<close>
  returns, unchanged and still alive, the creatures of the population that meet the
  criterion; it leaves the engine, the creatures that do not meet it among them, as it is.
\<close>

theorem no_creature_is_killed:
  assumes "reachable s"
  shows "list_all alive (individuals s) \<and> kill_count s = 0 \<and>
         list_all (\<lambda>st. stat_kill_count st = 0) (history s) \<and>
         apply_selection s = filter (survives s) (individuals s) \<and>
         list_all alive (apply_selection s)"
proof -
  from assms have "no_kills s"
    by (rule reachable_no_kills)
  then have n: "list_all alive (individuals s)" "kill_count s = 0"
    "list_all (\<lambda>st. stat_kill_count st = 0) (history s)"
    by (simp_all add: no_kills_def)
  have "filter (\<lambda>indiv. alive indiv \<and> survives s indiv) (individuals s) =
      filter (survives s) (individuals s)"
    using n(1) by (intro filter_cong) (auto simp add: list_all_iff)
  then have a: "apply_selection s = filter (survives s) (individuals s)"
    by (simp add: apply_selection_def)
  have "list_all alive (apply_selection s)"
    unfolding a using n(1) by (simp add: list_all_iff)
  with n a show ?thesis
    by blast
qed

theorem no_creature_is_killed_witness:
  "reachable ((example_world 8 8 4 RIGHT_HALF)
       \<lparr>grid := Grid_set (Grid_clear (grid (example_world 8 8 4 RIGHT_HALF))) 0 0 0,
        individuals := [\<lparr>genome = [0], pos_x = 0, pos_y = 0,
          brain = \<lparr>num_sensors = 12, num_actions = 5, num_internal = 4,
                   connections = [(0, 3, 0, 3, 1)], neuron_outputs = range_dict 4 0\<rparr>,
          alive = True, last_dx = 0, last_dy = 0, responsiveness = 0.5\<rparr>]\<rparr>) \<and>
   list_all alive (individuals ((example_world 8 8 4 RIGHT_HALF)
       \<lparr>grid := Grid_set (Grid_clear (grid (example_world 8 8 4 RIGHT_HALF))) 0 0 0,
        individuals := [\<lparr>genome = [0], pos_x = 0, pos_y = 0,
          brain = \<lparr>num_sensors = 12, num_actions = 5, num_internal = 4,
                   connections = [(0, 3, 0, 3, 1)], neuron_outputs = range_dict 4 0\<rparr>,
          alive = True, last_dx = 0, last_dy = 0, responsiveness = 0.5\<rparr>]\<rparr>)) \<and>
   apply_selection ((example_world 8 8 4 RIGHT_HALF)
       \<lparr>grid := Grid_set (Grid_clear (grid (example_world 8 8 4 RIGHT_HALF))) 0 0 0,
        individuals := [\<lparr>genome = [0], pos_x = 0, pos_y = 0,
          brain = \<lparr>num_sensors = 12, num_actions = 5, num_internal = 4,
                   connections = [(0, 3, 0, 3, 1)], neuron_outputs = range_dict 4 0\<rparr>,
          alive = True, last_dx = 0, last_dy = 0, responsiveness = 0.5\<rparr>]\<rparr>) = []"
proof -
  let ?s = "(example_world 8 8 4 RIGHT_HALF)
       \<lparr>grid := Grid_set (Grid_clear (grid (example_world 8 8 4 RIGHT_HALF))) 0 0 0,
        individuals := [\<lparr>genome = [0], pos_x = 0, pos_y = 0,
          brain = \<lparr>num_sensors = 12, num_actions = 5, num_internal = 4,
                   connections = [(0, 3, 0, 3, 1)], neuron_outputs = range_dict 4 0\<rparr>,
          alive = True, last_dx = 0, last_dy = 0, responsiveness = 0.5\<rparr>]\<rparr>"
  have "reachable (example_world 8 8 4 RIGHT_HALF)"
    using Simulation_init_example [of 4] by (rule reachable.init)
  then have r: "reachable ?s"
    using spawn_example [of 4] by (rule reachable.spawn)
  have "filter (survives ?s) (individuals ?s) = []"
    by (simp add: survives_def example_world_def RIGHT_HALF_def)
  with no_creature_is_killed [OF r] have "list_all alive (individuals ?s)" "apply_selection ?s = []"
    by simp_all
  with r show ?thesis
    by blast
qed

text \<open>
  C1 does not hold of the code. The engine stores \<^verbatim>\<open>num_internal_neurons\<close> ("hidden neurons
  in the brain") and never reads it: \<^verbatim>\<open>Individual.__init__\<close> builds every brain with the module
  constant \<^verbatim>\<open>NUM_INTERNAL = 4\<close>. An engine built with 3 internal neurons spawns, from the gene
  neuron 3 \<open>\<rightarrow>\<close> neuron 7, a brain of 4 neuron slots whose connection is 3 \<open>\<rightarrow>\<close> 3 (identifiers
  modulo 4), where the claim has 3 slots and the connection 0 \<open>\<rightarrow>\<close> 1 (modulo 3).
\<close>

theorem spawn_ignores_num_internal_neurons:
  "Simulation_init 8 8 1 1 3 1 0 RIGHT_HALF = Inr (example_world 8 8 3 RIGHT_HALF) \<and>
   num_internal_neurons (example_world 8 8 3 RIGHT_HALF) = 3 \<and>
   spawn_generation (example_world 8 8 3 RIGHT_HALF) (Some [[0]])
     [\<lparr>source_type = 0, source_id = 3, sink_type = 0, sink_id = 7, weight = 1\<rparr>] (draws []) =
   Some (Inr ((example_world 8 8 3 RIGHT_HALF)
       \<lparr>grid := Grid_set (Grid_clear (grid (example_world 8 8 3 RIGHT_HALF))) 0 0 0,
        individuals := [\<lparr>genome = [0], pos_x = 0, pos_y = 0,
          brain = \<lparr>num_sensors = 12, num_actions = 5, num_internal = 4,
                   connections = [(0, 3, 0, 3, 1)], neuron_outputs = range_dict 4 0\<rparr>,
          alive = True, last_dx = 0, last_dy = 0, responsiveness = 0.5\<rparr>]\<rparr>,
     [\<lparr>source_type = 0, source_id = 3, sink_type = 0, sink_id = 7, weight = 1\<rparr>], draws [])) \<and>
   Brain_init [\<lparr>source_type = 0, source_id = 3, sink_type = 0, sink_id = 7, weight = 1\<rparr>] [0] 12 5 3 =
     Inr \<lparr>num_sensors = 12, num_actions = 5, num_internal = 3,
          connections = [(0, 0, 0, 1, 1)], neuron_outputs = range_dict 3 0\<rparr>"
proof -
  have "num_internal_neurons (example_world 8 8 3 RIGHT_HALF) = 3"
    by (simp add: example_world_def)
  moreover have "Brain_init [\<lparr>source_type = 0, source_id = 3, sink_type = 0, sink_id = 7, weight = 1\<rparr>] [0] 12 5 3 =
     Inr \<lparr>num_sensors = 12, num_actions = 5, num_internal = 3,
          connections = [(0, 0, 0, 1, 1)], neuron_outputs = range_dict 3 0\<rparr>"
    by (simp add: Brain_init_def bind_err_def genes_of_def py_mod_def)
  ultimately show ?thesis
    using Simulation_init_example [of 3] spawn_example [of 3] by blast
qed
end
